theory Spec2Isabelle
  imports Complex_Main "HOL-Library.AList"
begin

section \<open>Shapes, bindings and the editor store\<close>

text \<open>
  The layout demo defines two shape types (\<open>container\<close>, \<open>element\<close>) and one binding
  type (\<open>layout\<close>) on top of a canvas framework.  Numbers are JavaScript numbers in the
  source; here they are exact rationals.  Shapes live directly on the page and are not
  rotated (both shape utils hide the rotate handle), so a shape's page transform is the
  translation by its \<open>x\<close>, \<open>y\<close>, and parent space is page space.
\<close>

type_synonym shape_id = nat
type_synonym binding_id = nat
type_synonym vec = "rat \<times> rat"

definition CONTAINER_PADDING :: rat where
  "CONTAINER_PADDING = 24"

datatype shape =
    ContainerShape (sx: rat) (sy: rat) (width: rat) (height: rat)
  | ElementShape (sx: rat) (sy: rat) (w: rat) (h: rat) (color: string)

fun shape_type :: "shape \<Rightarrow> string" where
  "shape_type (ContainerShape _ _ _ _) = ''container''"
| "shape_type (ElementShape _ _ _ _ _) = ''element''"

text \<open>\<open>ContainerShapeUtil.canBind\<close> and \<open>ElementShapeUtil.canBind\<close>.\<close>

definition ContainerShapeUtil_canBind :: "string \<Rightarrow> string \<Rightarrow> string \<Rightarrow> bool" where
  "ContainerShapeUtil_canBind fromShapeType toShapeType bindingType =
     (fromShapeType = ''container'' \<and> toShapeType = ''element'' \<and> bindingType = ''layout'')"

definition ElementShapeUtil_canBind :: "string \<Rightarrow> string \<Rightarrow> string \<Rightarrow> bool" where
  "ElementShapeUtil_canBind fromShapeType toShapeType bindingType =
     (fromShapeType = ''container'' \<and> toShapeType = ''element'' \<and> bindingType = ''layout'')"

text \<open>\<open>getGeometry\<close> of either util: a filled rectangle of the shape's own size.\<close>

fun getGeometry :: "shape \<Rightarrow> rat \<times> rat" where
  "getGeometry (ContainerShape _ _ cw ch) = (cw, ch)"
| "getGeometry (ElementShape _ _ ew eh _) = (ew, eh)"

text \<open>
  A layout binding: \<open>fromId\<close> is the container, \<open>toId\<close> the element.  The order key
  (\<open>IndexKey\<close>, a string compared with JavaScript's string comparison in the source) is any
  linearly ordered type \<open>'k\<close>.
\<close>

record 'k binding =
  bid :: binding_id
  fromId :: shape_id
  toId :: shape_id
  index :: 'k
  placeholder :: bool

text \<open>
  The editor store: the page's shapes bottom-to-top, the bindings, a log of the shape
  ids passed to \<open>updateShape\<close> (most recent first), and the after-change events of
  shapes that the store has queued and not dispatched yet: the shape's id with the
  record it had before its first change of the round.
\<close>

record 'k editor =
  shapes :: "(shape_id \<times> shape) list"
  bindings :: "'k binding list"
  shape_writes :: "shape_id list"
  pending :: "(shape_id \<times> shape) list"

subsection \<open>Host framework operations\<close>

text \<open>
  Modelled from the spec: the canvas framework is an external collaborator (spec section 6:
  shape capability query, hit-testing, geometry, relationship storage CRUD, shape
  mutation).  The definitions of this subsection follow that interface.
\<close>

definition getShape :: "'k editor \<Rightarrow> shape_id \<Rightarrow> shape option" where
  "getShape s i = map_of (shapes s) i"

text \<open>
  \<open>updateShape\<close> with the already merged record; unknown ids are ignored.  The store
  writes the record and queues its after-change event; a call made from inside a
  lifecycle callback returns then, and the event is dispatched when the callbacks of
  the current round are done (see \<open>flush\<close> below).  A record changed again within the
  round keeps its first event.
\<close>

definition enqueue :: "shape_id \<Rightarrow> shape \<Rightarrow> (shape_id \<times> shape) list \<Rightarrow> (shape_id \<times> shape) list" where
  "enqueue i prev q = (if i \<in> fst ` set q then q else q @ [(i, prev)])"

definition updateShape :: "shape_id \<Rightarrow> shape \<Rightarrow> 'k editor \<Rightarrow> 'k editor" where
  "updateShape i sh s =
     (case getShape s i of
        None \<Rightarrow> s
      | Some prev \<Rightarrow>
          s\<lparr>shapes := AList.update i sh (shapes s), shape_writes := i # shape_writes s,
            pending := enqueue i prev (pending s)\<rparr>)"

definition getBindingsFromShape :: "'k editor \<Rightarrow> shape_id \<Rightarrow> 'k binding list" where
  "getBindingsFromShape s i = filter (\<lambda>b. fromId b = i) (bindings s)"

definition getBindingsToShape :: "'k editor \<Rightarrow> shape_id \<Rightarrow> 'k binding list" where
  "getBindingsToShape s i = filter (\<lambda>b. toId b = i) (bindings s)"

text \<open>\<open>createBindingId\<close>: an id that no binding of the current store carries.\<close>

definition createBindingId :: "'k editor \<Rightarrow> binding_id" where
  "createBindingId s = Suc (foldr max (map bid (bindings s)) 0)"

text \<open>\<open>canBindShapes\<close>: the utils of both shape types must accept the triple.\<close>

definition shapeUtil_canBind :: "string \<Rightarrow> string \<Rightarrow> string \<Rightarrow> string \<Rightarrow> bool" where
  "shapeUtil_canBind util fromShapeType toShapeType bindingType =
     (if util = ''container'' then ContainerShapeUtil_canBind fromShapeType toShapeType bindingType
      else ElementShapeUtil_canBind fromShapeType toShapeType bindingType)"

definition canBindShapes :: "shape \<Rightarrow> shape \<Rightarrow> string \<Rightarrow> bool" where
  "canBindShapes fromShape toShape bindingType =
     (let fromShapeType = shape_type fromShape; toShapeType = shape_type toShape in
      if fromShapeType = toShapeType
      then shapeUtil_canBind fromShapeType fromShapeType toShapeType bindingType
      else shapeUtil_canBind fromShapeType fromShapeType toShapeType bindingType
         \<and> shapeUtil_canBind toShapeType fromShapeType toShapeType bindingType)"

text \<open>A page point hits a shape (with \<open>hitInside\<close>) when it lies in its rectangle.\<close>

definition hitInside :: "shape \<Rightarrow> vec \<Rightarrow> bool" where
  "hitInside sh p =
     (sx sh \<le> fst p \<and> fst p \<le> sx sh + fst (getGeometry sh)
      \<and> sy sh \<le> snd p \<and> snd p \<le> sy sh + snd (getGeometry sh))"

text \<open>\<open>getShapeAtPoint\<close>: the top-most shape passing the filter that contains the point.\<close>

definition getShapeAtPoint ::
  "'k editor \<Rightarrow> vec \<Rightarrow> (shape \<Rightarrow> bool) \<Rightarrow> (shape_id \<times> shape) option" where
  "getShapeAtPoint s p flt =
     find (\<lambda>(i, sh). getShape s i = Some sh \<and> flt sh \<and> hitInside sh p) (rev (shapes s))"

text \<open>\<open>clamp\<close> of the framework's utilities.\<close>

definition clamp :: "int \<Rightarrow> int \<Rightarrow> int \<Rightarrow> int" where
  "clamp n lo hi = max lo (min n hi)"

text \<open>JavaScript array indexing: out of range (also negative) is \<open>undefined\<close>.\<close>

definition nth_opt :: "'a list \<Rightarrow> int \<Rightarrow> 'a option" where
  "nth_opt xs i = (if 0 \<le> i \<and> i < int (length xs) then Some (xs ! nat i) else None)"

section \<open>The layout binding util: reflow\<close>

text \<open>
  The body and the loop of \<open>updateElementsForContainer\<close> over the sorted bindings,
  \<open>i\<close> being the loop counter.  \<open>t\<close> is the binding that triggered the reflow.

  \<open>getShape<ElementShape>\<close> and \<open>getShape<ContainerShape>\<close> are type assertions in the
  source; here a shape of the other kind is read as absent.  The capability predicates
  make the framework admit layout bindings from containers to elements only.

  The source sorts with a comparator that never returns 0, which fixes the result
  exactly when the keys are pairwise distinct; \<open>sort_key\<close> is that ascending list.
\<close>

definition place_member ::
  "'k binding \<Rightarrow> shape \<Rightarrow> nat \<Rightarrow> 'k binding \<Rightarrow> 'k editor \<Rightarrow> 'k editor" where
  "place_member t container i b s =
     (if toId t = toId b \<and> placeholder t then s
      else (case getShape s (toId b) of
              Some (ElementShape ex ey ew eh ec) \<Rightarrow>
                (let px = sx container
                          + (CONTAINER_PADDING + of_nat i * (100 + CONTAINER_PADDING));
                     py = sy container + CONTAINER_PADDING
                 in if ex \<noteq> px \<or> ey \<noteq> py
                    then updateShape (toId b) (ElementShape px py ew eh ec) s
                    else s)
            | _ \<Rightarrow> s))"

fun place_members ::
  "'k binding \<Rightarrow> shape \<Rightarrow> nat \<Rightarrow> 'k binding list \<Rightarrow> 'k editor \<Rightarrow> 'k editor" where
  "place_members t container i [] s = s"
| "place_members t container i (b # bs) s =
     place_members t container (Suc i) bs (place_member t container i b s)"

definition updateElementsForContainer :: "('k::linorder) binding \<Rightarrow> 'k editor \<Rightarrow> 'k editor" where
  "updateElementsForContainer t s =
     (case getShape s (fromId t) of
        Some (ContainerShape cx cy cw ch) \<Rightarrow>
          (let bs = sort_key index (getBindingsFromShape s (fromId t)) in
           if length bs = 0 then s
           else
             (let s1 = place_members t (ContainerShape cx cy cw ch) 0 bs s;
                  width' = CONTAINER_PADDING
                           + (of_nat (length bs) * 100 + (of_nat (length bs) - 1) * CONTAINER_PADDING)
                           + CONTAINER_PADDING;
                  height' = CONTAINER_PADDING + 100 + CONTAINER_PADDING
              in if width' \<noteq> cw \<or> height' \<noteq> ch
                 then updateShape (fromId t) (ContainerShape cx cy width' height') s1
                 else s1))
      | _ \<Rightarrow> s)"

text \<open>The lifecycle hooks that \<open>LayoutBindingUtil\<close> overrides.\<close>

definition onAfterCreate :: "('k::linorder) binding \<Rightarrow> 'k editor \<Rightarrow> 'k editor" where
  "onAfterCreate b = updateElementsForContainer b"

definition onAfterChange :: "('k::linorder) binding \<Rightarrow> 'k editor \<Rightarrow> 'k editor" where
  "onAfterChange bindingAfter = updateElementsForContainer bindingAfter"

definition onAfterChangeFromShape :: "('k::linorder) binding \<Rightarrow> 'k editor \<Rightarrow> 'k editor" where
  "onAfterChangeFromShape b = updateElementsForContainer b"

definition onAfterDelete :: "('k::linorder) binding \<Rightarrow> 'k editor \<Rightarrow> 'k editor" where
  "onAfterDelete b = updateElementsForContainer b"

text \<open>
  The hook table of the util as the framework sees it: one slot per lifecycle event of a
  binding; a slot the class does not override is empty.
\<close>

datatype hook =
  OnAfterCreate | OnAfterChange | OnAfterChangeFromShape | OnAfterChangeToShape | OnAfterDelete

fun LayoutBindingUtil_hook ::
  "hook \<Rightarrow> (('k::linorder) binding \<Rightarrow> 'k editor \<Rightarrow> 'k editor) option" where
  "LayoutBindingUtil_hook OnAfterCreate = Some onAfterCreate"
| "LayoutBindingUtil_hook OnAfterChange = Some onAfterChange"
| "LayoutBindingUtil_hook OnAfterChangeFromShape = Some onAfterChangeFromShape"
| "LayoutBindingUtil_hook OnAfterChangeToShape = None"
| "LayoutBindingUtil_hook OnAfterDelete = Some onAfterDelete"

subsection \<open>Dispatch of lifecycle events\<close>

text \<open>
  Modelled from the spec: the framework delivers the lifecycle events, and a mutation
  and the reflows it triggers run to completion before the next event is processed (spec
  sections 5 and 6).  The framework's store does so by running every mutation as an atomic
  operation: it starts with an empty queue, applies the mutation, and then dispatches the
  queued events in rounds until a round leaves nothing queued.  Callbacks run by a round
  may write again; those events wait for the next round.  The store gives up with an
  error when 100 rounds were not enough; \<open>flush_settles\<close> below shows that three rounds
  always are, so that error never arises and \<open>flush\<close> with fuel 100 is the store's loop.
\<close>

definition run_hook ::
  "hook \<Rightarrow> ('k::linorder) binding \<Rightarrow> 'k editor \<Rightarrow> 'k editor" where
  "run_hook hk b s = (case LayoutBindingUtil_hook hk of None \<Rightarrow> s | Some f \<Rightarrow> f b s)"

text \<open>
  What the framework does after a shape has changed.  Its binding API names the two
  shape-change hooks after the ends of the binding: the bindings whose \<open>fromId\<close> is the
  changed shape get the from-shape hook, the bindings whose \<open>toId\<close> is the changed shape
  get the to-shape hook.
\<close>

definition shapeChanged :: "shape_id \<Rightarrow> ('k::linorder) editor \<Rightarrow> 'k editor" where
  "shapeChanged i s =
     fold (run_hook OnAfterChangeToShape) (getBindingsToShape s i)
       (fold (run_hook OnAfterChangeFromShape) (getBindingsFromShape s i) s)"

text \<open>
  One round: the events queued so far are taken off the queue and, for every shape whose
  record differs from the one before the round's changes, the shape-change hooks run.
\<close>

definition flush_round :: "('k::linorder) editor \<Rightarrow> 'k editor" where
  "flush_round s =
     (let events = filter (\<lambda>(i, prev). getShape s i \<noteq> Some prev) (pending s)
      in fold (\<lambda>(i, prev). shapeChanged i) events (s\<lparr>pending := []\<rparr>))"

fun flush :: "nat \<Rightarrow> ('k::linorder) editor \<Rightarrow> 'k editor" where
  "flush 0 s = s"
| "flush (Suc n) s = (if pending s = [] then s else flush n (flush_round s))"

definition atomic :: "(('k::linorder) editor \<Rightarrow> 'k editor) \<Rightarrow> 'k editor \<Rightarrow> 'k editor" where
  "atomic f s = flush 100 (f (s\<lparr>pending := []\<rparr>))"

subsection \<open>Binding storage with its hooks\<close>

text \<open>
  Modelled from the spec: relationship storage CRUD of the framework.  Each mutation is
  an atomic operation whose first round runs the util's after-hook (spec sections 4.3
  and 5); a batch mutates the store first and then runs the hook once per affected
  binding; an update that changes nothing raises no hook.
\<close>

definition createBinding :: "('k::linorder) binding \<Rightarrow> 'k editor \<Rightarrow> 'k editor" where
  "createBinding b s =
     atomic (\<lambda>s. run_hook OnAfterCreate b (s\<lparr>bindings := bindings s @ [b]\<rparr>)) s"

definition put_binding :: "'k binding \<Rightarrow> 'k binding list \<Rightarrow> 'k binding list" where
  "put_binding b' bs = map (\<lambda>b. if bid b = bid b' then b' else b) bs"

definition updateBindings :: "('k::linorder) binding list \<Rightarrow> 'k editor \<Rightarrow> 'k editor" where
  "updateBindings partials s =
     atomic (\<lambda>s.
       let updated = filter (\<lambda>b'. \<exists>cur \<in> set (bindings s). bid cur = bid b' \<and> cur \<noteq> b') partials
       in fold (run_hook OnAfterChange) updated
            (s\<lparr>bindings := fold put_binding updated (bindings s)\<rparr>)) s"

definition updateBinding :: "('k::linorder) binding \<Rightarrow> 'k editor \<Rightarrow> 'k editor" where
  "updateBinding partial s = updateBindings [partial] s"

definition deleteBindings :: "('k::linorder) binding list \<Rightarrow> 'k editor \<Rightarrow> 'k editor" where
  "deleteBindings bs s =
     atomic (\<lambda>s.
       let removed = filter (\<lambda>b. bid b \<in> bid ` set bs) (bindings s)
       in fold (run_hook OnAfterDelete) removed
            (s\<lparr>bindings := filter (\<lambda>b. bid b \<notin> bid ` set bs) (bindings s)\<rparr>)) s"

text \<open>The framework moves a shape: an atomic operation of its own.\<close>

definition moveShape :: "shape_id \<Rightarrow> shape \<Rightarrow> ('k::linorder) editor \<Rightarrow> 'k editor" where
  "moveShape i sh s = atomic (updateShape i sh) s"

section \<open>The element shape util: drag resolution\<close>

definition getTargetContainer :: "'k editor \<Rightarrow> shape \<Rightarrow> vec \<Rightarrow> (shape_id \<times> shape) option" where
  "getTargetContainer s shape pageAnchor =
     getShapeAtPoint s pageAnchor (\<lambda>otherShape. canBindShapes otherShape shape ''layout'')"

text \<open>
  \<open>getBindingIndexForPosition\<close>.  \<open>getIndexBetween\<close> is the framework's order-key
  allocator, a parameter here.  \<open>e\<close> is the dragged element's id, \<open>c\<close> the container's.
\<close>

definition getBindingIndexForPosition ::
  "('k option \<Rightarrow> 'k option \<Rightarrow> 'k) \<Rightarrow> ('k::linorder) editor \<Rightarrow> shape_id \<Rightarrow> shape_id \<times> shape \<Rightarrow> vec \<Rightarrow> 'k" where
  "getBindingIndexForPosition getIndexBetween s e container pageAnchor =
     (let allBindings = sort_key index (getBindingsFromShape s (fst container));
          siblings = filter (\<lambda>b. toId b \<noteq> e) allBindings;
          order = clamp
                    (round ((fst pageAnchor - sx (snd container) - CONTAINER_PADDING)
                            / (100 + CONTAINER_PADDING)))
                    0 (int (length siblings) + 1);
          belowSib = nth_opt allBindings (order - 1);
          aboveSib = nth_opt allBindings order
      in if map_option toId belowSib = Some e then index (the belowSib)
         else if map_option toId aboveSib = Some e then index (the aboveSib)
         else getIndexBetween (map_option index belowSib) (map_option index aboveSib))"

definition onTranslateStart :: "shape_id \<Rightarrow> ('k::linorder) editor \<Rightarrow> 'k editor" where
  "onTranslateStart e s =
     updateBindings (map (\<lambda>b. b\<lparr>placeholder := True\<rparr>) (getBindingsToShape s e)) s"

definition onTranslate ::
  "('k option \<Rightarrow> 'k option \<Rightarrow> 'k) \<Rightarrow> shape_id \<Rightarrow> shape \<Rightarrow> ('k::linorder) editor \<Rightarrow> 'k editor" where
  "onTranslate getIndexBetween e shape s =
     (let pageAnchor = (sx shape + 50, sy shape + 50) in
      case getTargetContainer s shape pageAnchor of
        None \<Rightarrow> deleteBindings (getBindingsToShape s e) s
      | Some targetContainer \<Rightarrow>
          (let index' = getBindingIndexForPosition getIndexBetween s e targetContainer pageAnchor in
           case find (\<lambda>b. toId b = e) (getBindingsFromShape s (fst targetContainer)) of
             Some existingBinding \<Rightarrow>
               if index existingBinding = index' then s
               else updateBinding (existingBinding\<lparr>placeholder := True, index := index'\<rparr>) s
           | None \<Rightarrow>
               createBinding
                 \<lparr>bid = createBindingId s, fromId = fst targetContainer, toId = e,
                  index = index', placeholder = True\<rparr> s))"

definition onTranslateEnd ::
  "('k option \<Rightarrow> 'k option \<Rightarrow> 'k) \<Rightarrow> shape_id \<Rightarrow> shape \<Rightarrow> ('k::linorder) editor \<Rightarrow> 'k editor" where
  "onTranslateEnd getIndexBetween e shape s =
     (let pageAnchor = (sx shape + 50, sy shape + 50) in
      case getTargetContainer s shape pageAnchor of
        None \<Rightarrow> s
      | Some targetContainer \<Rightarrow>
          (let index' = getBindingIndexForPosition getIndexBetween s e targetContainer pageAnchor;
               s1 = deleteBindings (getBindingsToShape s e) s
           in createBinding
                \<lparr>bid = createBindingId s1, fromId = fst targetContainer, toId = e,
                 index = index', placeholder = False\<rparr> s1))"

section \<open>Auxiliary notions\<close>

text \<open>The slot of loop index \<open>i\<close> in page space, for a container \<open>c\<close>.\<close>

definition slot_x :: "shape \<Rightarrow> nat \<Rightarrow> rat" where
  "slot_x c i = sx c + (CONTAINER_PADDING + of_nat i * (100 + CONTAINER_PADDING))"

definition slot_y :: "shape \<Rightarrow> rat" where
  "slot_y c = sy c + CONTAINER_PADDING"

fun move_to :: "rat \<Rightarrow> rat \<Rightarrow> shape \<Rightarrow> shape" where
  "move_to px py (ElementShape ex ey ew eh ec) = ElementShape px py ew eh ec"
| "move_to px py (ContainerShape cx cy cw ch) = ContainerShape cx cy cw ch"

fun at_slot :: "shape \<Rightarrow> nat \<Rightarrow> shape option \<Rightarrow> bool" where
  "at_slot c i (Some (ElementShape ex ey _ _ _)) = (ex = slot_x c i \<and> ey = slot_y c)"
| "at_slot c i _ = True"

text \<open>
  Modelled from the spec: the contract of the order-key allocator (spec section 4.1): the
  key returned lies strictly above the lower bound and strictly below the upper bound,
  an absent bound being an open end.
\<close>

definition allocator_ok :: "(('k::linorder) option \<Rightarrow> 'k option \<Rightarrow> 'k) \<Rightarrow> bool" where
  "allocator_ok g =
     ((\<forall>lo hi. lo < hi \<longrightarrow> lo < g (Some lo) (Some hi) \<and> g (Some lo) (Some hi) < hi)
      \<and> (\<forall>lo. lo < g (Some lo) None)
      \<and> (\<forall>hi. g None (Some hi) < hi))"

text \<open>An allocator over rational keys that meets the contract.\<close>

fun between_rat :: "rat option \<Rightarrow> rat option \<Rightarrow> rat" where
  "between_rat None None = 1"
| "between_rat (Some lo) None = lo + 1"
| "between_rat None (Some hi) = hi - 1"
| "between_rat (Some lo) (Some hi) = (lo + hi) / 2"

text \<open>Well-formedness of the binding store and of the container sizes.\<close>

definition ids_unique :: "'k editor \<Rightarrow> bool" where
  "ids_unique s = distinct (map bid (bindings s))"

definition pair_unique :: "'k editor \<Rightarrow> bool" where
  "pair_unique s = distinct (map (\<lambda>b. (fromId b, toId b)) (bindings s))"

definition keys_unique :: "'k editor \<Rightarrow> bool" where
  "keys_unique s = (\<forall>c. distinct (map index (getBindingsFromShape s c)))"

definition sized :: "'k editor \<Rightarrow> shape_id \<Rightarrow> bool" where
  "sized s c =
     (case getShape s c of
        Some (ContainerShape cx cy cw ch) \<Rightarrow>
          getBindingsFromShape s c \<noteq> [] \<longrightarrow>
            cw = 24 + of_nat (length (getBindingsFromShape s c)) * 100
                 + (of_nat (length (getBindingsFromShape s c)) - 1) * 24 + 24
            \<and> ch = 24 + 100 + 24
      | _ \<Rightarrow> True)"


text \<open>Notions for the dispatch rounds: the kind of the shape behind a queued event.\<close>

definition is_container :: "'k editor \<Rightarrow> shape_id \<Rightarrow> bool" where
  "is_container s i = (map_option shape_type (getShape s i) = Some ''container'')"

definition events_sized :: "'k editor \<Rightarrow> bool" where
  "events_sized s = (\<forall>(i, prev) \<in> set (pending s). sized s i)"

definition events_inert :: "'k editor \<Rightarrow> bool" where
  "events_inert s = (\<forall>(i, prev) \<in> set (pending s). \<not> is_container s i)"

text \<open>An element sits in some slot of a container that holds at least that many members.\<close>

definition slotted :: "'k editor \<Rightarrow> shape_id \<Rightarrow> bool" where
  "slotted s e =
     (\<exists>c cx cy cw ch k ew eh ec.
        getShape s c = Some (ContainerShape cx cy cw ch)
        \<and> k < length (getBindingsFromShape s c)
        \<and> getShape s e = Some (ElementShape (cx + (24 + of_nat k * 124)) (cy + 24) ew eh ec))"

definition committed_unique :: "'k editor \<Rightarrow> bool" where
  "committed_unique s =
     (\<forall>e. length (filter (\<lambda>b. \<not> placeholder b) (getBindingsToShape s e)) \<le> 1)"

definition all_sized :: "'k editor \<Rightarrow> bool" where
  "all_sized s = (\<forall>c. sized s c)"

text \<open>
  The stores reachable from \<open>s0\<close>: the framework moves a shape and dispatches the
  events that follow, or calls one of the three drag callbacks of the element util on an element of the
  page, passing the element's current record.
\<close>

fun set_xy :: "rat \<Rightarrow> rat \<Rightarrow> shape \<Rightarrow> shape" where
  "set_xy px py (ElementShape ex ey ew eh ec) = ElementShape px py ew eh ec"
| "set_xy px py (ContainerShape cx cy cw ch) = ContainerShape px py cw ch"

inductive reachable ::
  "(('k::linorder) option \<Rightarrow> 'k option \<Rightarrow> 'k) \<Rightarrow> 'k editor \<Rightarrow> 'k editor \<Rightarrow> bool"
  for g :: "('k::linorder) option \<Rightarrow> 'k option \<Rightarrow> 'k" and s0 :: "'k editor" where
  initial: "reachable g s0 s0"
| moved: "reachable g s0 s \<Longrightarrow> getShape s i = Some sh
      \<Longrightarrow> reachable g s0 (moveShape i (set_xy px py sh) s)"
| drag_start: "reachable g s0 s \<Longrightarrow> getShape s e = Some sh \<Longrightarrow> shape_type sh = ''element''
      \<Longrightarrow> reachable g s0 (onTranslateStart e s)"
| drag_move: "reachable g s0 s \<Longrightarrow> getShape s e = Some sh \<Longrightarrow> shape_type sh = ''element''
      \<Longrightarrow> reachable g s0 (onTranslate g e sh s)"
| drag_end: "reachable g s0 s \<Longrightarrow> getShape s e = Some sh \<Longrightarrow> shape_type sh = ''element''
      \<Longrightarrow> reachable g s0 (onTranslateEnd g e sh s)"

text \<open>
  Sample stores: a container with two members whose geometry has not been settled
  yet, once with both bindings committed and once with the second member being dragged.
\<close>

definition binding1 :: "rat binding" where
  "binding1 = \<lparr>bid = 1, fromId = 10, toId = 1, index = 1, placeholder = False\<rparr>"

definition binding2 :: "rat binding" where
  "binding2 = \<lparr>bid = 2, fromId = 10, toId = 2, index = 2, placeholder = False\<rparr>"

definition binding2_dragged :: "rat binding" where
  "binding2_dragged = \<lparr>bid = 2, fromId = 10, toId = 2, index = 2, placeholder = True\<rparr>"

definition unsettled :: "rat editor" where
  "unsettled = \<lparr>shapes = [(10, ContainerShape 200 200 668 148),
                           (1, ElementShape 0 0 100 100 ''red''),
                           (2, ElementShape 500 500 100 100 ''orange'')],
                 bindings = [binding2, binding1], shape_writes = [], pending = []\<rparr>"

definition dragging :: "rat editor" where
  "dragging = \<lparr>shapes = [(10, ContainerShape 200 200 668 148),
                          (1, ElementShape 0 0 100 100 ''red''),
                          (2, ElementShape 500 500 100 100 ''orange'')],
                bindings = [binding2_dragged, binding1], shape_writes = [], pending = []\<rparr>"

definition settled :: "rat editor" where
  "settled = \<lparr>shapes = [(10, ContainerShape 200 200 272 148),
                         (1, ElementShape 224 224 100 100 ''red''),
                         (2, ElementShape 348 224 100 100 ''orange''),
                         (3, ElementShape 300 230 100 100 ''grey'')],
               bindings = [binding2, binding1], shape_writes = [], pending = []\<rparr>"

text \<open>The same drag over a container that has its size already.\<close>

definition dragging_sized :: "rat editor" where
  "dragging_sized = \<lparr>shapes = [(10, ContainerShape 200 200 272 148),
                                (1, ElementShape 224 224 100 100 ''red''),
                                (2, ElementShape 500 500 100 100 ''orange'')],
                      bindings = [binding2_dragged, binding1], shape_writes = [], pending = []\<rparr>"

text \<open>
  Sample stores for drags: two containers side by side, the first holding one element,
  and the store after that element was picked up and carried over the second container.
\<close>

definition binding_a1 :: "rat binding" where
  "binding_a1 = \<lparr>bid = 1, fromId = 10, toId = 1, index = 1, placeholder = False\<rparr>"

definition two_containers :: "rat editor" where
  "two_containers = \<lparr>shapes = [(10, ContainerShape 200 200 148 148),
                                (20, ContainerShape 400 200 148 148),
                                (1, ElementShape 224 224 100 100 ''red'')],
                      bindings = [binding_a1], shape_writes = [], pending = []\<rparr>"

definition carried :: "rat \<Rightarrow> rat \<Rightarrow> rat editor" where
  "carried px py =
     moveShape 1 (set_xy px py (ElementShape 224 224 100 100 ''red''))
       (onTranslateStart 1 two_containers)"

definition dragged_across :: "rat editor" where
  "dragged_across = onTranslate between_rat 1 (ElementShape 424 224 100 100 ''red'') (carried 424 224)"

definition detached :: "rat editor" where
  "detached = onTranslate between_rat 1 (ElementShape 1000 1000 100 100 ''red'') (carried 1000 1000)"

text \<open>A store in which a committed member was moved off its slot.\<close>

definition nudged :: "rat editor" where
  "nudged = updateShape 2 (set_xy 1000 1000 (ElementShape 348 224 100 100 ''orange'')) settled"

section \<open>Facts about the store and the reflow loop\<close>

lemma getShape_updateShape:
  "getShape (updateShape i sh s) j = (if j = i \<and> getShape s i \<noteq> None then Some sh else getShape s j)"
  by (simp add: updateShape_def getShape_def update_conv' split: option.splits)

lemma bindings_updateShape [simp]: "bindings (updateShape i sh s) = bindings s"
  by (simp add: updateShape_def split: option.splits)

lemma bindings_place_member [simp]: "bindings (place_member t c i b s) = bindings s"
  by (auto split: option.splits shape.splits simp: Let_def place_member_def)

lemma bindings_place_members [simp]: "bindings (place_members t c i bs s) = bindings s"
  by (induction bs arbitrary: i s) auto

lemma bindings_reflow [simp]: "bindings (updateElementsForContainer t s) = bindings s"
  by (auto simp: updateElementsForContainer_def Let_def split: option.splits shape.splits)

lemma getBindingsFromShape_cong: "bindings s' = bindings s \<Longrightarrow> getBindingsFromShape s' = getBindingsFromShape s"
  by (auto simp: getBindingsFromShape_def fun_eq_iff)

lemma getShape_place_member:
  "getShape (place_member t c i b s) j =
     (if j = toId b \<and> \<not> (toId t = toId b \<and> placeholder t)
      then map_option (move_to (slot_x c i) (slot_y c)) (getShape s j)
      else getShape s j)"
  by (auto simp: place_member_def Let_def getShape_updateShape slot_x_def slot_y_def
           split: option.splits shape.splits)

lemma place_members_other:
  "j \<notin> toId ` set bs \<Longrightarrow> getShape (place_members t c i bs s) j = getShape s j"
  by (induction bs arbitrary: i s) (auto simp: getShape_place_member)

lemma place_members_skip:
  "toId t = j \<and> placeholder t \<Longrightarrow> getShape (place_members t c i bs s) j = getShape s j"
  by (induction bs arbitrary: i s) (auto simp: getShape_place_member)

lemma place_members_cases:
  "getShape (place_members t c i bs s) j = getShape s j
   \<or> (\<exists>px py. getShape (place_members t c i bs s) j = map_option (move_to px py) (getShape s j))"
proof (induction bs arbitrary: i s)
  case Nil
  then show ?case by simp
next
  case (Cons b bs)
  have mm: "\<And>px py qx qy sh. move_to px py (move_to qx qy sh) = move_to px py sh"
    by (case_tac sh) auto
  show ?case using Cons.IH[of "Suc i" "place_member t c i b s"]
    by (auto simp: getShape_place_member option.map_comp comp_def mm split: if_splits)
qed

lemma place_members_at:
  "distinct (map toId bs) \<Longrightarrow> k < length bs \<Longrightarrow> \<not> (toId t = toId (bs ! k) \<and> placeholder t) \<Longrightarrow>
   getShape (place_members t c i bs s) (toId (bs ! k))
     = map_option (move_to (slot_x c (i + k)) (slot_y c)) (getShape s (toId (bs ! k)))"
proof (induction bs arbitrary: i s k)
  case Nil
  then show ?case by simp
next
  case (Cons b bs)
  show ?case
  proof (cases k)
    case 0
    have notin: "toId b \<notin> toId ` set bs" using Cons.prems(1) by auto
    show ?thesis using 0 Cons.prems(3)
      by (simp add: place_members_other[OF notin] getShape_place_member)
  next
    case (Suc k')
    have "toId (bs ! k') \<in> toId ` set bs" using Cons.prems(2) Suc by simp
    moreover have "toId b \<notin> toId ` set bs" using Cons.prems(1) by simp
    ultimately have ne: "toId (bs ! k') \<noteq> toId b" by metis
    have "getShape (place_member t c i b s) (toId (bs ! k')) = getShape s (toId (bs ! k'))"
      using ne by (simp add: getShape_place_member)
    with Cons.IH[where k=k' and i="Suc i" and s="place_member t c i b s"] Cons.prems(1,2,3) Suc
    show ?thesis by simp
  qed
qed

lemma place_member_noop:
  "(toId t = toId b \<and> placeholder t) \<or> at_slot c i (getShape s (toId b))
   \<Longrightarrow> place_member t c i b s = s"
  by (auto simp: place_member_def Let_def slot_x_def slot_y_def split: option.splits shape.splits)

lemma place_members_noop:
  "(\<And>k. k < length bs \<Longrightarrow> (toId t = toId (bs ! k) \<and> placeholder t) \<or>
      at_slot c (i + k) (getShape s (toId (bs ! k))))
   \<Longrightarrow> place_members t c i bs s = s"
proof (induction bs arbitrary: i)
  case Nil
  then show ?case by simp
next
  case (Cons b bs)
  have "place_member t c i b s = s"
    using Cons.prems[of 0] by (intro place_member_noop) simp
  moreover have "place_members t c (Suc i) bs s = s"
  proof (rule Cons.IH)
    fix k assume "k < length bs"
    then show "(toId t = toId (bs ! k) \<and> placeholder t) \<or>
      at_slot c (Suc i + k) (getShape s (toId (bs ! k)))"
      using Cons.prems[of "Suc k"] by simp
  qed
  ultimately show ?case by simp
qed

lemma slot_x_simp [simp]: "slot_x (ContainerShape cx cy cw ch) i = cx + (24 + of_nat i * 124)"
  by (simp add: slot_x_def CONTAINER_PADDING_def)

lemma slot_y_simp [simp]: "slot_y (ContainerShape cx cy cw ch) = cy + 24"
  by (simp add: slot_y_def CONTAINER_PADDING_def)

lemma reflow_unfold:
  assumes c: "getShape s (fromId t) = Some (ContainerShape cx cy cw ch)"
    and bs: "bs = sort_key index (getBindingsFromShape s (fromId t))"
    and ne: "bs \<noteq> []"
  shows "updateElementsForContainer t s =
     (let s1 = place_members t (ContainerShape cx cy cw ch) 0 bs s;
          width' = 24 + of_nat (length bs) * 100 + (of_nat (length bs) - 1) * 24 + 24
      in if width' \<noteq> cw \<or> 148 \<noteq> ch
         then updateShape (fromId t) (ContainerShape cx cy width' 148) s1 else s1)"
  using c ne unfolding updateElementsForContainer_def bs[symmetric] Let_def
  by (simp add: CONTAINER_PADDING_def algebra_simps)

lemma reflow_container:
  assumes c: "getShape s (fromId t) = Some (ContainerShape cx cy cw ch)"
    and bs: "bs = sort_key index (getBindingsFromShape s (fromId t))"
    and ne: "bs \<noteq> []"
  shows "getShape (updateElementsForContainer t s) (fromId t)
     = Some (ContainerShape cx cy (24 + of_nat (length bs) * 100 + (of_nat (length bs) - 1) * 24 + 24) 148)"
proof -
  have "getShape (place_members t (ContainerShape cx cy cw ch) 0 bs s) (fromId t)
         = Some (ContainerShape cx cy cw ch)"
    using place_members_cases[of t "ContainerShape cx cy cw ch" 0 bs s "fromId t"] c by auto
  then show ?thesis
    unfolding reflow_unfold[OF c bs ne] Let_def
    by (auto simp: getShape_updateShape)
qed

lemma reflow_member:
  assumes c: "getShape s (fromId t) = Some (ContainerShape cx cy cw ch)"
    and bs: "bs = sort_key index (getBindingsFromShape s (fromId t))"
    and d: "distinct (map toId bs)"
    and k: "k < length bs"
    and e: "getShape s (toId (bs ! k)) = Some (ElementShape ex ey ew eh ec)"
  shows "getShape (updateElementsForContainer t s) (toId (bs ! k))
     = (if toId t = toId (bs ! k) \<and> placeholder t then Some (ElementShape ex ey ew eh ec)
        else Some (ElementShape (cx + (24 + of_nat k * 124)) (cy + 24) ew eh ec))"
proof -
  have ne: "bs \<noteq> []" using k by auto
  have neq: "toId (bs ! k) \<noteq> fromId t" using c e by auto
  let ?s1 = "place_members t (ContainerShape cx cy cw ch) 0 bs s"
  have "getShape (updateElementsForContainer t s) (toId (bs ! k)) = getShape ?s1 (toId (bs ! k))"
    unfolding reflow_unfold[OF c bs ne] Let_def using neq
    by (simp add: getShape_updateShape)
  also have "\<dots> = (if toId t = toId (bs ! k) \<and> placeholder t then Some (ElementShape ex ey ew eh ec)
        else Some (ElementShape (cx + (24 + of_nat k * 124)) (cy + 24) ew eh ec))"
  proof (cases "toId t = toId (bs ! k) \<and> placeholder t")
    case True
    show ?thesis unfolding if_P[OF True]
      using place_members_skip[OF True, of "ContainerShape cx cy cw ch" 0 bs s] e by simp
  next
    case False
    show ?thesis unfolding if_not_P[OF False]
      using place_members_at[OF d k False, of "ContainerShape cx cy cw ch" 0 s] e by simp
  qed
  finally show ?thesis .
qed

lemma at_slot_container [simp]: "at_slot c i (Some (ContainerShape x y cw ch))"
  by simp

lemma reflow_idem_aux:
  assumes d: "distinct (map toId (getBindingsFromShape s (fromId t)))"
  shows "updateElementsForContainer t (updateElementsForContainer t s) = updateElementsForContainer t s"
proof (cases "\<exists>cx cy cw ch. getShape s (fromId t) = Some (ContainerShape cx cy cw ch)
               \<and> sort_key index (getBindingsFromShape s (fromId t)) \<noteq> []")
  case False
  then have "updateElementsForContainer t s = s"
    by (auto simp: updateElementsForContainer_def Let_def split: option.splits shape.splits)
  then show ?thesis by simp
next
  case True
  then obtain cx cy cw ch where c: "getShape s (fromId t) = Some (ContainerShape cx cy cw ch)"
    and ne: "sort_key index (getBindingsFromShape s (fromId t)) \<noteq> []" by blast
  define bs where "bs = sort_key index (getBindingsFromShape s (fromId t))"
  define s' where "s' = updateElementsForContainer t s"
  define w' :: rat where "w' = 24 + of_nat (length bs) * 100 + (of_nat (length bs) - 1) * 24 + 24"
  have bs: "bs = sort_key index (getBindingsFromShape s (fromId t))" by (simp add: bs_def)
  have ne': "bs \<noteq> []" using ne bs by simp
  have dbs: "distinct (map toId bs)" using d by (simp add: bs distinct_map)
  have c': "getShape s' (fromId t) = Some (ContainerShape cx cy w' 148)"
    unfolding s'_def w'_def by (rule reflow_container[OF c bs ne'])
  have bs': "bs = sort_key index (getBindingsFromShape s' (fromId t))"
    unfolding bs s'_def by (simp add: getBindingsFromShape_cong[of "updateElementsForContainer t s" s])
  have noop: "place_members t (ContainerShape cx cy w' 148) 0 bs s' = s'"
  proof (rule place_members_noop)
    fix k assume k: "k < length bs"
    show "(toId t = toId (bs ! k) \<and> placeholder t) \<or>
          at_slot (ContainerShape cx cy w' 148) (0 + k) (getShape s' (toId (bs ! k)))"
    proof (cases "toId t = toId (bs ! k) \<and> placeholder t")
      case True then show ?thesis by simp
    next
      case skip: False
      show ?thesis
      proof (cases "getShape s (toId (bs ! k))")
        case None
        have neq: "toId (bs ! k) \<noteq> fromId t" using c None by auto
        have "getShape s' (toId (bs ! k)) = None"
          unfolding s'_def reflow_unfold[OF c bs ne'] Let_def using neq None
            place_members_cases[of t "ContainerShape cx cy cw ch" 0 bs s "toId (bs ! k)"]
          by (auto simp: getShape_updateShape)
        then show ?thesis by simp
      next
        case (Some sh)
        show ?thesis
        proof (cases sh)
          case (ContainerShape x y a b)
          have "\<exists>x y a b. getShape s' (toId (bs ! k)) = Some (ContainerShape x y a b)"
            unfolding s'_def reflow_unfold[OF c bs ne'] Let_def using Some ContainerShape
              place_members_cases[of t "ContainerShape cx cy cw ch" 0 bs s "toId (bs ! k)"]
            by (auto simp: getShape_updateShape)
          then show ?thesis by auto
        next
          case (ElementShape ex ey ew eh ec)
          have "getShape s' (toId (bs ! k)) = Some (ElementShape (cx + (24 + of_nat k * 124)) (cy + 24) ew eh ec)"
            unfolding s'_def using reflow_member[OF c bs dbs k, of ex ey ew eh ec] Some ElementShape skip
            by simp
          then show ?thesis by simp
        qed
      qed
    qed
  qed
  have "updateElementsForContainer t s' = s'"
    unfolding reflow_unfold[OF c' bs' ne'] Let_def noop by (simp add: w'_def)
  then show ?thesis by (simp add: s'_def)
qed

lemma place_member_skip_iff:
  "(\<forall>s0 :: 'k editor. place_member t c i b s0 = s0) = (toId t = toId b \<and> placeholder t)"
proof
  assume "toId t = toId b \<and> placeholder t"
  then show "\<forall>s0 :: 'k editor. place_member t c i b s0 = s0" by (simp add: place_member_def)
next
  assume a: "\<forall>s0 :: 'k editor. place_member t c i b s0 = s0"
  let ?s0 = "\<lparr>shapes = [(toId b, ElementShape (slot_x c i + 1) 0 0 0 [])], bindings = [], shape_writes = [], pending = []\<rparr> :: 'k editor"
  show "toId t = toId b \<and> placeholder t"
  proof (rule ccontr)
    assume n: "\<not> (toId t = toId b \<and> placeholder t)"
    have "shape_writes (place_member t c i b ?s0) = [toId b]"
      using n by (auto simp: place_member_def getShape_def updateShape_def Let_def slot_x_def)
    with a show False by (metis editor.select_convs(3) list.distinct(1))
  qed
qed

subsection \<open>The order-key allocator and the slot computation\<close>

lemma allocator_ok_between_rat: "allocator_ok between_rat"
  by (auto simp: allocator_ok_def field_simps)

lemma sorted_all:
  "distinct (map index (getBindingsFromShape s c)) \<Longrightarrow>
   sorted_wrt (<) (map index (sort_key index (getBindingsFromShape s c)))"
  by (simp add: strict_sorted_iff distinct_map)

lemma nth_opt_Some: "nth_opt xs i = Some x \<Longrightarrow> 0 \<le> i \<and> nat i < length xs \<and> x = xs ! nat i"
  by (auto simp: nth_opt_def split: if_splits)

lemma allocator_between:
  assumes ok: "allocator_ok g"
    and st: "sorted_wrt (<) (map index all)"
  shows "(\<forall>b. nth_opt all (slot - 1) = Some b \<longrightarrow>
            index b < g (map_option index (nth_opt all (slot - 1))) (map_option index (nth_opt all slot)))
       \<and> (\<forall>a. nth_opt all slot = Some a \<longrightarrow>
            g (map_option index (nth_opt all (slot - 1))) (map_option index (nth_opt all slot)) < index a)"
proof (cases "nth_opt all (slot - 1)")
  case None
  then show ?thesis using ok by (cases "nth_opt all slot") (auto simp: allocator_ok_def)
next
  case (Some b)
  note b = nth_opt_Some[OF Some]
  show ?thesis
  proof (cases "nth_opt all slot")
    case None
    then show ?thesis using ok Some by (auto simp: allocator_ok_def)
  next
    case (Some a)
    note a = nth_opt_Some[OF Some]
    have "nat (slot - 1) < nat slot" using a b by auto
    then have "map index all ! nat (slot - 1) < map index all ! nat slot"
      using sorted_wrt_nth_less[OF st, of "nat (slot - 1)" "nat slot"] a by simp
    then have "index b < index a" using a b by simp
    then show ?thesis using ok Some \<open>nth_opt all (slot - 1) = Some b\<close> by (auto simp: allocator_ok_def)
  qed
qed

lemma getBindingIndexForPosition_unfold:
  assumes all: "all = sort_key index (getBindingsFromShape s c)"
    and n: "n = length (filter (\<lambda>b. toId b \<noteq> e) all)"
    and slot: "slot = clamp (round ((ax - sx cont - 24) / 124)) 0 (int n + 1)"
    and belowSib: "belowSib = nth_opt all (slot - 1)"
    and aboveSib: "aboveSib = nth_opt all slot"
  shows "getBindingIndexForPosition g s e (c, cont) (ax, ay) =
        (if map_option toId belowSib = Some e then index (the belowSib)
         else if map_option toId aboveSib = Some e then index (the aboveSib)
         else g (map_option index belowSib) (map_option index aboveSib))"
  unfolding getBindingIndexForPosition_def Let_def belowSib aboveSib slot n all
  apply (simp only: CONTAINER_PADDING_def fst_conv snd_conv)
  apply (subgoal_tac "(100::rat) + 24 = 124")
  apply (simp only:)
  apply simp
  done

lemma clamp_range: "0 \<le> hi \<Longrightarrow> 0 \<le> clamp x 0 hi \<and> clamp x 0 hi \<le> hi
    \<and> (clamp x 0 hi = x \<or> clamp x 0 hi = 0 \<or> clamp x 0 hi = hi)"
  unfolding clamp_def by (simp add: max_def min_def)

subsection \<open>Reflow and container sizes\<close>

lemma move_to_container:
  "move_to px py sh = ContainerShape x y cw ch \<Longrightarrow> sh = ContainerShape x y cw ch"
  by (cases sh) auto

lemma place_members_container_back:
  "getShape (place_members t c i bs s) j = Some (ContainerShape x y cw ch) \<Longrightarrow>
   getShape s j = Some (ContainerShape x y cw ch)"
proof -
  assume a: "getShape (place_members t c i bs s) j = Some (ContainerShape x y cw ch)"
  from place_members_cases[of t c i bs s j] show ?thesis
  proof
    assume "getShape (place_members t c i bs s) j = getShape s j"
    with a show ?thesis by simp
  next
    assume "\<exists>px py. getShape (place_members t c i bs s) j = map_option (move_to px py) (getShape s j)"
    then obtain px py where
      "getShape (place_members t c i bs s) j = map_option (move_to px py) (getShape s j)" by blast
    with a have "map_option (move_to px py) (getShape s j) = Some (ContainerShape x y cw ch)"
      by simp
    then show ?thesis by (cases "getShape s j") (auto dest: move_to_container)
  qed
qed

lemma sort_key_Nil_iff [simp]: "(sort_key f xs = []) = (xs = [])"
  by (metis length_0_conv length_sort)

lemma reflow_noop:
  "\<not> (\<exists>cx cy cw ch. getShape s (fromId t) = Some (ContainerShape cx cy cw ch)) \<Longrightarrow>
   updateElementsForContainer t s = s"
  by (auto simp: updateElementsForContainer_def split: option.splits shape.splits)

lemma reflow_noop_empty:
  "getBindingsFromShape s (fromId t) = [] \<Longrightarrow> updateElementsForContainer t s = s"
  by (auto simp: updateElementsForContainer_def split: option.splits shape.splits)

lemma reflow_container_other:
  assumes "j \<noteq> fromId t"
    and "getShape (updateElementsForContainer t s) j = Some (ContainerShape x y cw ch)"
  shows "getShape s j = Some (ContainerShape x y cw ch)"
proof (cases "\<exists>cx cy cw ch. getShape s (fromId t) = Some (ContainerShape cx cy cw ch)")
  case False
  then show ?thesis using assms(2) by (simp add: reflow_noop)
next
  case True
  then obtain cx cy cw' ch' where c: "getShape s (fromId t) = Some (ContainerShape cx cy cw' ch')"
    by blast
  show ?thesis
  proof (cases "getBindingsFromShape s (fromId t) = []")
    case True
    then show ?thesis using assms(2) by (simp add: reflow_noop_empty)
  next
    case False
    then have ne: "sort_key index (getBindingsFromShape s (fromId t)) \<noteq> []" by simp
    have "getShape (place_members t (ContainerShape cx cy cw' ch') 0
             (sort_key index (getBindingsFromShape s (fromId t))) s) j = Some (ContainerShape x y cw ch)"
      using assms unfolding reflow_unfold[OF c refl ne] Let_def
      by (auto simp: getShape_updateShape split: if_splits)
    then show ?thesis by (rule place_members_container_back)
  qed
qed

lemma sized_reflow_self: "sized (updateElementsForContainer t s) (fromId t)"
proof (cases "\<exists>cx cy cw ch. getShape s (fromId t) = Some (ContainerShape cx cy cw ch)")
  case False
  then show ?thesis by (auto simp: reflow_noop sized_def split: option.splits shape.splits)
next
  case True
  then obtain cx cy cw' ch' where c: "getShape s (fromId t) = Some (ContainerShape cx cy cw' ch')"
    by blast
  show ?thesis
  proof (cases "getBindingsFromShape s (fromId t) = []")
    case True
    then show ?thesis by (simp add: reflow_noop_empty sized_def split: option.splits shape.splits)
  next
    case False
    then have ne: "sort_key index (getBindingsFromShape s (fromId t)) \<noteq> []" by simp
    show ?thesis
      using reflow_container[OF c refl ne]
      by (simp add: sized_def getBindingsFromShape_cong[of "updateElementsForContainer t s" s])
  qed
qed

lemma getBindingsFromShape_reflow [simp]:
  "getBindingsFromShape (updateElementsForContainer t s) c = getBindingsFromShape s c"
  by (simp add: getBindingsFromShape_def)

lemma sized_cong:
  "getShape s' c = getShape s c \<Longrightarrow>
   length (getBindingsFromShape s' c) = length (getBindingsFromShape s c) \<Longrightarrow>
   sized s' c = sized s c"
  by (auto simp: sized_def split: option.splits shape.splits)

lemma sized_not_container:
  "\<not> (\<exists>x y cw ch. getShape s c = Some (ContainerShape x y cw ch)) \<Longrightarrow> sized s c"
  by (auto simp: sized_def split: option.splits shape.splits)

lemma sized_reflow_pres:
  assumes a: "sized s c"
  shows "sized (updateElementsForContainer t s) c"
proof (cases "c = fromId t")
  case True
  show ?thesis unfolding True by (rule sized_reflow_self)
next
  case False
  show ?thesis
  proof (cases "\<exists>x y cw ch. getShape (updateElementsForContainer t s) c = Some (ContainerShape x y cw ch)")
    case True
    then obtain x y cw ch where
      g': "getShape (updateElementsForContainer t s) c = Some (ContainerShape x y cw ch)" by blast
    have g: "getShape s c = Some (ContainerShape x y cw ch)"
      by (rule reflow_container_other[OF False g'])
    have "sized (updateElementsForContainer t s) c = sized s c"
      by (rule sized_cong) (simp_all add: g g')
    then show ?thesis using a by simp
  next
    case False
    then show ?thesis by (rule sized_not_container)
  qed
qed

lemma run_hook_cases:
  "run_hook hk b s = s \<or> run_hook hk b s = updateElementsForContainer b s"
  by (cases hk) (simp_all add: run_hook_def onAfterCreate_def onAfterChange_def
      onAfterChangeFromShape_def onAfterDelete_def)

lemma run_hook_reflow:
  "hk \<noteq> OnAfterChangeToShape \<Longrightarrow> run_hook hk b s = updateElementsForContainer b s"
  by (cases hk) (simp_all add: run_hook_def onAfterCreate_def onAfterChange_def
      onAfterChangeFromShape_def onAfterDelete_def)

lemma bindings_run_hook [simp]: "bindings (run_hook hk b s) = bindings s"
  using run_hook_cases[of hk b s] by auto

lemma bindings_fold_hook [simp]: "bindings (fold (run_hook hk) bs s) = bindings s"
  by (induction bs arbitrary: s) auto

lemma sized_run_hook: "sized s c \<Longrightarrow> sized (run_hook hk b s) c"
  using run_hook_cases[of hk b s] by (auto simp: sized_reflow_pres)

lemma sized_fold_hook: "sized s c \<Longrightarrow> sized (fold (run_hook hk) bs s) c"
  by (induction bs arbitrary: s) (auto simp: sized_run_hook)

lemma sized_fold_hook_self:
  "hk \<noteq> OnAfterChangeToShape \<Longrightarrow> b \<in> set bs \<Longrightarrow> sized (fold (run_hook hk) bs s) (fromId b)"
proof (induction bs arbitrary: s)
  case Nil
  then show ?case by simp
next
  case (Cons a bs)
  show ?case
  proof (cases "b \<in> set bs")
    case True
    then show ?thesis using Cons.IH[OF Cons.prems(1)] by simp
  next
    case False
    then have "a = b" using Cons.prems(2) by simp
    then have "sized (run_hook hk a s) (fromId b)"
      using Cons.prems(1) by (simp add: run_hook_reflow sized_reflow_self)
    then show ?thesis by (simp add: sized_fold_hook)
  qed
qed

subsection \<open>Dispatch rounds\<close>

lemma getShape_bindings_update [simp]: "getShape (s\<lparr>bindings := bs\<rparr>) = getShape s"
  by (simp add: getShape_def fun_eq_iff)

lemma getShape_pending_update [simp]: "getShape (s\<lparr>pending := q\<rparr>) = getShape s"
  by (simp add: getShape_def fun_eq_iff)

lemma getBindingsFromShape_pending [simp]:
  "getBindingsFromShape (s\<lparr>pending := q\<rparr>) = getBindingsFromShape s"
  by (simp add: getBindingsFromShape_def fun_eq_iff)

lemma getBindingsToShape_pending [simp]:
  "getBindingsToShape (s\<lparr>pending := q\<rparr>) = getBindingsToShape s"
  by (simp add: getBindingsToShape_def fun_eq_iff)

lemma sized_pending [simp]: "sized (s\<lparr>pending := q\<rparr>) c = sized s c"
  by (rule sized_cong) simp_all

lemma bindings_shapeChanged [simp]: "bindings (shapeChanged i s) = bindings s"
  by (simp add: shapeChanged_def)

lemma shapeChanged_eq:
  "shapeChanged i s = fold updateElementsForContainer (getBindingsFromShape s i) s"
proof -
  have 1: "run_hook OnAfterChangeFromShape = updateElementsForContainer"
    by (simp add: run_hook_def onAfterChangeFromShape_def fun_eq_iff)
  have 2: "fold (run_hook OnAfterChangeToShape) bs s' = s'" for bs and s' :: "'a editor"
    by (induction bs) (simp_all add: run_hook_def)
  show ?thesis unfolding shapeChanged_def 1 2 ..
qed

lemma bindings_fold_shapeChanged [simp]:
  "bindings (fold (\<lambda>(i, prev). shapeChanged i) evs s) = bindings s"
  by (induction evs arbitrary: s) auto

lemma bindings_flush_round [simp]: "bindings (flush_round s) = bindings s"
  by (simp add: flush_round_def Let_def)

lemma bindings_flush [simp]: "bindings (flush n s) = bindings s"
  by (induction n arbitrary: s) auto

lemma bindings_atomic: "bindings (atomic f s) = bindings (f (s\<lparr>pending := []\<rparr>))"
  by (simp add: atomic_def)

lemma sized_shapeChanged: "sized s c \<Longrightarrow> sized (shapeChanged i s) c"
  by (simp add: shapeChanged_def sized_fold_hook)

lemma sized_fold_shapeChanged:
  "sized s c \<Longrightarrow> sized (fold (\<lambda>(i, prev). shapeChanged i) evs s) c"
  by (induction evs arbitrary: s) (auto simp: sized_shapeChanged)

lemma sized_flush_round: "sized s c \<Longrightarrow> sized (flush_round s) c"
  by (simp add: flush_round_def Let_def sized_fold_shapeChanged)

lemma sized_flush: "sized s c \<Longrightarrow> sized (flush n s) c"
  by (induction n arbitrary: s) (auto simp: sized_flush_round)

lemma sized_atomic: "sized (f (s\<lparr>pending := []\<rparr>)) c \<Longrightarrow> sized (atomic f s) c"
  by (simp add: atomic_def sized_flush)

lemma is_container_iff:
  "is_container s i = (\<exists>cx cy cw ch. getShape s i = Some (ContainerShape cx cy cw ch))"
proof (cases "getShape s i")
  case None
  then show ?thesis by (simp add: is_container_def)
next
  case (Some sh)
  then show ?thesis by (cases sh) (simp_all add: is_container_def)
qed

lemma shape_type_move_to [simp]: "shape_type (move_to px py sh) = shape_type sh"
  by (cases sh) simp_all

lemma is_container_place_members [simp]:
  "is_container (place_members t c i bs s) j = is_container s j"
  using place_members_cases[of t c i bs s j]
  by (cases "getShape s j") (auto simp: is_container_def)

lemma is_container_reflow [simp]:
  "is_container (updateElementsForContainer t s) j = is_container s j"
proof (cases "\<exists>cx cy cw ch. getShape s (fromId t) = Some (ContainerShape cx cy cw ch)")
  case False
  then show ?thesis by (simp add: reflow_noop)
next
  case True
  then obtain cx cy cw ch where c: "getShape s (fromId t) = Some (ContainerShape cx cy cw ch)"
    by blast
  show ?thesis
  proof (cases "getBindingsFromShape s (fromId t) = []")
    case True
    then show ?thesis by (simp add: reflow_noop_empty)
  next
    case False
    then have ne: "sort_key index (getBindingsFromShape s (fromId t)) \<noteq> []" by simp
    let ?s1 = "place_members t (ContainerShape cx cy cw ch) 0
                 (sort_key index (getBindingsFromShape s (fromId t))) s"
    have s1: "is_container ?s1 j = is_container s j" by simp
    have cc: "is_container s (fromId t)" using c by (simp add: is_container_def)
    show ?thesis
      unfolding reflow_unfold[OF c refl ne] Let_def
      using s1 cc by (auto simp: is_container_def getShape_updateShape)
  qed
qed

lemma pending_updateShape:
  "(j, b) \<in> set (pending (updateShape i sh s)) \<Longrightarrow> (j, b) \<in> set (pending s) \<or> j = i"
  by (auto simp: updateShape_def enqueue_def split: option.splits if_splits)

lemma pending_place_member:
  "(j, b) \<in> set (pending (place_member t c i m s)) \<Longrightarrow>
   (j, b) \<in> set (pending s) \<or> \<not> is_container s j"
  by (auto simp: place_member_def Let_def is_container_def
           dest!: pending_updateShape split: if_splits option.splits shape.splits)

lemma is_container_place_member [simp]:
  "is_container (place_member t c i m s) j = is_container s j"
  using is_container_place_members[of t c i "[m]" s j] by simp

lemma pending_place_members:
  "(j, b) \<in> set (pending (place_members t c i bs s)) \<Longrightarrow>
   (j, b) \<in> set (pending s) \<or> \<not> is_container s j"
proof (induction bs arbitrary: i s)
  case Nil
  then show ?case by simp
next
  case (Cons m bs)
  from Cons.IH[of "Suc i" "place_member t c i m s"] Cons.prems
  have "(j, b) \<in> set (pending (place_member t c i m s)) \<or> \<not> is_container s j" by simp
  then show ?case using pending_place_member[of j b t c i m s] by blast
qed

lemma pending_reflow:
  assumes "(j, b) \<in> set (pending (updateElementsForContainer t s))"
  shows "(j, b) \<in> set (pending s) \<or> \<not> is_container s j \<or> (j = fromId t \<and> \<not> sized s j)"
proof (cases "\<exists>cx cy cw ch. getShape s (fromId t) = Some (ContainerShape cx cy cw ch)")
  case False
  then show ?thesis using assms by (simp add: reflow_noop)
next
  case True
  then obtain cx cy cw ch where c: "getShape s (fromId t) = Some (ContainerShape cx cy cw ch)"
    by blast
  show ?thesis
  proof (cases "getBindingsFromShape s (fromId t) = []")
    case True
    then show ?thesis using assms by (simp add: reflow_noop_empty)
  next
    case False
    then have ne: "sort_key index (getBindingsFromShape s (fromId t)) \<noteq> []" by simp
    let ?bs = "sort_key index (getBindingsFromShape s (fromId t))"
    let ?s1 = "place_members t (ContainerShape cx cy cw ch) 0 ?bs s"
    let ?w = "24 + of_nat (length ?bs) * 100 + (of_nat (length ?bs) - 1) * 24 + 24 :: rat"
    show ?thesis
    proof (cases "?w \<noteq> cw \<or> 148 \<noteq> ch")
      case True
      have ns: "\<not> sized s (fromId t)" using True c False by (auto simp: sized_def)
      have "(j, b) \<in> set (pending (updateShape (fromId t) (ContainerShape cx cy ?w 148) ?s1))"
        using assms True unfolding reflow_unfold[OF c refl ne] Let_def by simp
      then have "(j, b) \<in> set (pending ?s1) \<or> j = fromId t" by (rule pending_updateShape)
      then show ?thesis using ns pending_place_members[of j b t _ 0 ?bs s] by blast
    next
      case F: False
      have "(j, b) \<in> set (pending ?s1)"
        using assms F unfolding reflow_unfold[OF c refl ne] Let_def by simp
      then show ?thesis using pending_place_members[of j b t _ 0 ?bs s] by blast
    qed
  qed
qed

text \<open>
  An invariant of the dispatch: \<open>I\<close> holds and every queued event of a container is an
  event of a container in \<open>C\<close>.  It is kept by every reflow of a container in \<open>C\<close>
  that a binding of the store triggers.
\<close>

lemma reflow_restricted:
  assumes I: "I s"
    and q: "\<forall>(i, b) \<in> set (pending s). is_container s i \<longrightarrow> i \<in> C"
    and t: "is_container s (fromId t) \<longrightarrow> fromId t \<in> C"
    and tb: "t \<in> set (bindings s)"
    and step: "\<And>t s. fromId t \<in> C \<Longrightarrow> t \<in> set (bindings s) \<Longrightarrow> I s
                  \<Longrightarrow> I (updateElementsForContainer t s)"
  shows "I (updateElementsForContainer t s)
       \<and> (\<forall>(i, b) \<in> set (pending (updateElementsForContainer t s)).
             is_container (updateElementsForContainer t s) i \<longrightarrow> i \<in> C)"
proof (cases "is_container s (fromId t)")
  case False
  then have "updateElementsForContainer t s = s"
    by (intro reflow_noop) (simp add: is_container_iff)
  then show ?thesis using I q by simp
next
  case True
  then have inC: "fromId t \<in> C" using t by simp
  have "I (updateElementsForContainer t s)" using step[OF inC tb I] .
  moreover have "\<forall>(i, b) \<in> set (pending (updateElementsForContainer t s)).
             is_container (updateElementsForContainer t s) i \<longrightarrow> i \<in> C"
  proof (clarsimp)
    fix i b assume m: "(i, b) \<in> set (pending (updateElementsForContainer t s))"
      and ic: "is_container s i"
    from pending_reflow[OF m] ic have "(i, b) \<in> set (pending s) \<or> i = fromId t" by blast
    then show "i \<in> C" using q ic inC by auto
  qed
  ultimately show ?thesis by blast
qed

lemma fold_reflow_restricted:
  assumes I: "I s"
    and q: "\<forall>(i, b) \<in> set (pending s). is_container s i \<longrightarrow> i \<in> C"
    and t: "\<forall>t \<in> set ts. is_container s (fromId t) \<longrightarrow> fromId t \<in> C"
    and tb: "set ts \<subseteq> set (bindings s)"
    and step: "\<And>t s. fromId t \<in> C \<Longrightarrow> t \<in> set (bindings s) \<Longrightarrow> I s
                  \<Longrightarrow> I (updateElementsForContainer t s)"
  shows "I (fold updateElementsForContainer ts s)
       \<and> (\<forall>(i, b) \<in> set (pending (fold updateElementsForContainer ts s)).
             is_container s i \<longrightarrow> i \<in> C)
       \<and> (\<forall>j. is_container (fold updateElementsForContainer ts s) j = is_container s j)"
  using I q t tb
proof (induction ts arbitrary: s)
  case Nil
  then show ?case by simp
next
  case (Cons a ts)
  have a: "is_container s (fromId a) \<longrightarrow> fromId a \<in> C" using Cons.prems(3) by simp
  have ab: "a \<in> set (bindings s)" using Cons.prems(4) by simp
  note r = reflow_restricted[of I s C a, OF Cons.prems(1,2) a ab step]
  have "I (fold updateElementsForContainer ts (updateElementsForContainer a s))
       \<and> (\<forall>(i, b) \<in> set (pending (fold updateElementsForContainer ts (updateElementsForContainer a s))).
             is_container (updateElementsForContainer a s) i \<longrightarrow> i \<in> C)
       \<and> (\<forall>j. is_container (fold updateElementsForContainer ts (updateElementsForContainer a s)) j
              = is_container (updateElementsForContainer a s) j)"
    apply (rule Cons.IH)
    using r Cons.prems(3,4) by simp_all
  then show ?case by simp
qed

lemma fold_shapeChanged_restricted:
  assumes I: "I s"
    and q: "\<forall>(i, b) \<in> set (pending s). is_container s i \<longrightarrow> i \<in> C"
    and t: "\<forall>(i, b) \<in> set evs. is_container s i \<longrightarrow> i \<in> C"
    and step: "\<And>t s. fromId t \<in> C \<Longrightarrow> t \<in> set (bindings s) \<Longrightarrow> I s
                  \<Longrightarrow> I (updateElementsForContainer t s)"
  shows "I (fold (\<lambda>(i, prev). shapeChanged i) evs s)
       \<and> (\<forall>(i, b) \<in> set (pending (fold (\<lambda>(i, prev). shapeChanged i) evs s)).
             is_container s i \<longrightarrow> i \<in> C)
       \<and> (\<forall>j. is_container (fold (\<lambda>(i, prev). shapeChanged i) evs s) j = is_container s j)"
  using I q t
proof (induction evs arbitrary: s)
  case Nil
  then show ?case by simp
next
  case (Cons ev evs)
  obtain i b where ev: "ev = (i, b)" by (cases ev)
  have t': "\<forall>t \<in> set (getBindingsFromShape s i). is_container s (fromId t) \<longrightarrow> fromId t \<in> C"
    using Cons.prems(3) ev by (auto simp: getBindingsFromShape_def)
  have sc: "fold updateElementsForContainer (getBindingsFromShape s i) s = shapeChanged i s"
    by (simp add: shapeChanged_eq)
  have tb': "set (getBindingsFromShape s i) \<subseteq> set (bindings s)"
    by (auto simp: getBindingsFromShape_def)
  note r = fold_reflow_restricted[of I s C "getBindingsFromShape s i",
      OF Cons.prems(1,2) t' tb' step, unfolded sc]
  let ?s' = "shapeChanged i s"
  have "I (fold (\<lambda>(i, prev). shapeChanged i) evs ?s')
       \<and> (\<forall>(i, b) \<in> set (pending (fold (\<lambda>(i, prev). shapeChanged i) evs ?s')).
             is_container ?s' i \<longrightarrow> i \<in> C)
       \<and> (\<forall>j. is_container (fold (\<lambda>(i, prev). shapeChanged i) evs ?s') j = is_container ?s' j)"
    apply (rule Cons.IH)
    using r Cons.prems(3) by simp_all
  then show ?case using r by (simp add: ev)
qed

lemma is_container_pending [simp]: "is_container (s\<lparr>pending := q\<rparr>) = is_container s"
  by (simp add: is_container_def fun_eq_iff)

lemma flush_round_restricted:
  assumes I: "I s"
    and q: "\<forall>(i, b) \<in> set (pending s). is_container s i \<longrightarrow> i \<in> C"
    and clear: "\<And>s. I s \<Longrightarrow> I (s\<lparr>pending := []\<rparr>)"
    and step: "\<And>t s. fromId t \<in> C \<Longrightarrow> t \<in> set (bindings s) \<Longrightarrow> I s
                  \<Longrightarrow> I (updateElementsForContainer t s)"
  shows "I (flush_round s)
       \<and> (\<forall>(i, b) \<in> set (pending (flush_round s)). is_container (flush_round s) i \<longrightarrow> i \<in> C)"
proof -
  let ?evs = "filter (\<lambda>(i, prev). getShape s i \<noteq> Some prev) (pending s)"
  let ?s1 = "s\<lparr>pending := []\<rparr>"
  have 1: "I ?s1" using clear[OF I] .
  have 2: "\<forall>(i, b) \<in> set (pending ?s1). is_container ?s1 i \<longrightarrow> i \<in> C" by simp
  have 3: "\<forall>(i, b) \<in> set ?evs. is_container ?s1 i \<longrightarrow> i \<in> C" using q by auto
  from fold_shapeChanged_restricted[of I ?s1 C ?evs, OF 1 2 3 step]
  show ?thesis by (simp add: flush_round_def Let_def)
qed

lemma flush_restricted:
  assumes I: "I s"
    and q: "\<forall>(i, b) \<in> set (pending s). is_container s i \<longrightarrow> i \<in> C"
    and clear: "\<And>s. I s \<Longrightarrow> I (s\<lparr>pending := []\<rparr>)"
    and step: "\<And>t s. fromId t \<in> C \<Longrightarrow> t \<in> set (bindings s) \<Longrightarrow> I s
                  \<Longrightarrow> I (updateElementsForContainer t s)"
  shows "I (flush n s)"
  using I q
proof (induction n arbitrary: s)
  case 0
  then show ?case by simp
next
  case (Suc n)
  note r = flush_round_restricted[of I s C, OF Suc.prems clear step]
  show ?case using Suc.IH[of "flush_round s"] r Suc.prems(1) by simp
qed

lemma flush_induct:
  assumes I: "I s"
    and clear: "\<And>s. I s \<Longrightarrow> I (s\<lparr>pending := []\<rparr>)"
    and step: "\<And>t s. I s \<Longrightarrow> I (updateElementsForContainer t s)"
  shows "I (flush n s)"
  by (rule flush_restricted[of I s UNIV, OF I _ clear step]) simp_all


text \<open>Three rounds settle every queue.\<close>

lemma events_inert_round:
  assumes "events_sized s"
  shows "events_inert (flush_round s)"
proof -
  define C where "C = {i. sized s i}"
  define I where "I = (\<lambda>s' :: 'a editor. (\<forall>i \<in> C. sized s' i) \<and> events_inert s')"
  have 1: "I (s\<lparr>pending := []\<rparr>)" unfolding I_def C_def events_inert_def by simp
  have q: "\<forall>(i, b) \<in> set (pending s). is_container s i \<longrightarrow> i \<in> C"
    using assms by (auto simp: events_sized_def C_def)
  have step: "\<And>(t :: 'a binding) s. fromId t \<in> C \<Longrightarrow> t \<in> set (bindings s) \<Longrightarrow> I s
                \<Longrightarrow> I (updateElementsForContainer t s)"
  proof -
    fix t :: "'a binding" and s' :: "'a editor"
    assume t: "fromId t \<in> C" and i: "I s'"
    have sz: "sized s' (fromId t)" using t i by (simp add: I_def)
    have "events_inert (updateElementsForContainer t s')"
      unfolding events_inert_def
    proof (clarsimp)
      fix j b assume m: "(j, b) \<in> set (pending (updateElementsForContainer t s'))"
        and ic: "is_container s' j"
      from pending_reflow[OF m] ic sz have "(j, b) \<in> set (pending s')" by blast
      then show False using i ic by (auto simp: I_def events_inert_def)
    qed
    then show "I (updateElementsForContainer t s')"
      using i by (simp add: I_def sized_reflow_pres)
  qed
  have clear: "\<And>s. I s \<Longrightarrow> I (s\<lparr>pending := []\<rparr>)" by (simp add: I_def events_inert_def)
  let ?evs = "filter (\<lambda>(i, prev). getShape s i \<noteq> Some prev) (pending s)"
  have 3: "\<forall>(i, b) \<in> set ?evs. is_container (s\<lparr>pending := []\<rparr>) i \<longrightarrow> i \<in> C" using q by auto
  have 2: "\<forall>(i, b) \<in> set (pending (s\<lparr>pending := []\<rparr>)). is_container (s\<lparr>pending := []\<rparr>) i \<longrightarrow> i \<in> C"
    by simp
  from fold_shapeChanged_restricted[of I "s\<lparr>pending := []\<rparr>" C ?evs, OF 1 2 3 step]
  show ?thesis by (simp add: flush_round_def Let_def I_def)
qed

lemma events_sized_round: "events_sized (flush_round s)"
proof -
  define I where "I = (events_sized :: 'a editor \<Rightarrow> bool)"
  have step: "\<And>(t :: 'a binding) s. fromId t \<in> UNIV \<Longrightarrow> t \<in> set (bindings s) \<Longrightarrow> I s
                \<Longrightarrow> I (updateElementsForContainer t s)"
  proof -
    fix t :: "'a binding" and s' :: "'a editor"
    assume i: "I s'"
    show "I (updateElementsForContainer t s')"
      unfolding I_def events_sized_def
    proof (clarsimp)
      fix j b assume m: "(j, b) \<in> set (pending (updateElementsForContainer t s'))"
      from pending_reflow[OF m] show "sized (updateElementsForContainer t s') j"
      proof (elim disjE)
        assume "(j, b) \<in> set (pending s')"
        then have "sized s' j" using i by (auto simp: I_def events_sized_def)
        then show ?thesis by (rule sized_reflow_pres)
      next
        assume "\<not> is_container s' j"
        then have "\<not> is_container (updateElementsForContainer t s') j" by simp
        then show ?thesis by (intro sized_not_container) (simp add: is_container_iff)
      next
        assume "j = fromId t \<and> \<not> sized s' j"
        then show ?thesis by (simp add: sized_reflow_self)
      qed
    qed
  qed
  let ?evs = "filter (\<lambda>(i, prev). getShape s i \<noteq> Some prev) (pending s)"
  have 1: "I (s\<lparr>pending := []\<rparr>)" by (simp add: I_def events_sized_def)
  from fold_shapeChanged_restricted[of I "s\<lparr>pending := []\<rparr>" UNIV ?evs, OF 1 _ _ step]
  show ?thesis by (simp add: flush_round_def Let_def I_def)
qed

lemma inert_round:
  assumes "events_inert s"
  shows "flush_round s = s\<lparr>pending := []\<rparr>"
proof -
  define I where "I = (\<lambda>s' :: 'a editor. s' = s\<lparr>pending := []\<rparr>)"
  let ?evs = "filter (\<lambda>(i, prev). getShape s i \<noteq> Some prev) (pending s)"
  have 1: "I (s\<lparr>pending := []\<rparr>)" by (simp add: I_def)
  have 2: "\<forall>(i, b) \<in> set (pending (s\<lparr>pending := []\<rparr>)). is_container (s\<lparr>pending := []\<rparr>) i \<longrightarrow> i \<in> {}"
    by simp
  have 3: "\<forall>(i, b) \<in> set ?evs. is_container (s\<lparr>pending := []\<rparr>) i \<longrightarrow> i \<in> {}"
    using assms by (auto simp: events_inert_def)
  have step: "\<And>(t :: 'a binding) s. fromId t \<in> {} \<Longrightarrow> t \<in> set (bindings s) \<Longrightarrow> I s
                \<Longrightarrow> I (updateElementsForContainer t s)" by simp
  from fold_shapeChanged_restricted[of I "s\<lparr>pending := []\<rparr>" "{}" ?evs, OF 1 2 3 step]
  show ?thesis by (simp add: flush_round_def Let_def I_def)
qed

lemma flush_empty: "pending s = [] \<Longrightarrow> flush n s = s"
  by (cases n) simp_all

lemma flush_settles: "pending (flush (Suc (Suc (Suc n))) s) = []"
proof -
  let ?s1 = "flush_round s"
  let ?s2 = "flush_round ?s1"
  let ?s3 = "flush_round ?s2"
  have "events_inert ?s2" by (rule events_inert_round) (rule events_sized_round)
  then have "?s3 = ?s2\<lparr>pending := []\<rparr>" by (rule inert_round)
  then have "pending ?s3 = []" by simp
  then have "flush n ?s3 = ?s3" by (rule flush_empty)
  then show ?thesis using \<open>pending ?s3 = []\<close> by simp
qed

lemma pending_atomic [simp]: "pending (atomic f s) = []"
  unfolding atomic_def using flush_settles[of 97 "f (s\<lparr>pending := []\<rparr>)"]
  by (simp add: eval_nat_numeral)

lemma atomic_induct:
  assumes I: "I (f (s\<lparr>pending := []\<rparr>))"
    and clear: "\<And>s. I s \<Longrightarrow> I (s\<lparr>pending := []\<rparr>)"
    and step: "\<And>t s. I s \<Longrightarrow> I (updateElementsForContainer t s)"
  shows "I (atomic f s)"
  unfolding atomic_def by (rule flush_induct[OF I clear step])

lemma bindings_fold_reflow [simp]:
  "bindings (fold updateElementsForContainer ts s) = bindings s"
  by (induction ts arbitrary: s) auto

lemma member_step:
  assumes c: "getShape s (fromId t) = Some (ContainerShape cx cy cw ch)"
    and bs: "bs = sort_key index (getBindingsFromShape s (fromId t))"
    and d: "distinct (map toId bs)"
    and k: "k < length bs"
    and e: "getShape s (toId (bs ! k)) = Some (ElementShape ex ey ew eh ec)"
  shows "(\<exists>cw' ch'. getShape (updateElementsForContainer t s) (fromId t)
                     = Some (ContainerShape cx cy cw' ch'))
       \<and> getShape (updateElementsForContainer t s) (toId (bs ! k))
           = (if toId t = toId (bs ! k) \<and> placeholder t then Some (ElementShape ex ey ew eh ec)
              else Some (ElementShape (cx + (24 + of_nat k * 124)) (cy + 24) ew eh ec))"
proof -
  have ne: "bs \<noteq> []" using k by auto
  show ?thesis using reflow_container[OF c bs ne] reflow_member[OF c bs d k e] by simp
qed

lemma getShape_inert_flush:
  assumes "events_inert s"
  shows "getShape (flush n s) = getShape s"
proof (cases n)
  case 0
  then show ?thesis by simp
next
  case (Suc m)
  have "flush m (flush_round s) = flush_round s"
    by (rule flush_empty) (simp add: inert_round[OF assms])
  then show ?thesis using Suc by (simp add: inert_round[OF assms])
qed

lemma pending_reflow_resize:
  assumes c: "getShape s (fromId t) = Some (ContainerShape cx cy cw ch)"
    and bs: "bs = sort_key index (getBindingsFromShape s (fromId t))"
    and ne: "bs \<noteq> []"
    and r: "24 + of_nat (length bs) * 100 + (of_nat (length bs) - 1) * 24 + 24 \<noteq> cw \<or> 148 \<noteq> ch"
    and q: "pending s = []"
  shows "(fromId t, ContainerShape cx cy cw ch) \<in> set (pending (updateElementsForContainer t s))"
proof -
  let ?s1 = "place_members t (ContainerShape cx cy cw ch) 0 bs s"
  have g: "getShape ?s1 (fromId t) = Some (ContainerShape cx cy cw ch)"
    using place_members_cases[of t "ContainerShape cx cy cw ch" 0 bs s "fromId t"] c by auto
  have ic: "is_container s (fromId t)" using c by (simp add: is_container_def)
  have "fromId t \<notin> fst ` set (pending ?s1)"
  proof
    assume "fromId t \<in> fst ` set (pending ?s1)"
    then obtain b where "(fromId t, b) \<in> set (pending ?s1)" by auto
    from pending_place_members[OF this] q ic show False by simp
  qed
  then show ?thesis
    unfolding reflow_unfold[OF c bs ne] Let_def using r g
    by (simp add: updateShape_def enqueue_def)
qed

lemma dispatch_after_reflow:
  fixes s :: "('k::linorder) editor"
  assumes c: "getShape s (fromId t) = Some (ContainerShape cx cy cw ch)"
    and bs: "bs = sort_key index (getBindingsFromShape s (fromId t))"
    and d: "distinct (map toId bs)"
    and tr: "t \<in> set bs \<or> toId t \<notin> toId ` set bs"
    and k: "k < length bs"
    and e: "getShape s (toId (bs ! k)) = Some (ElementShape ex ey ew eh ec)"
    and q: "pending s = []"
  shows "getShape (flush (Suc n) (updateElementsForContainer t s)) (toId (bs ! k))
           = (if bs ! k = t \<and> placeholder t
                 \<and> ((cw = 24 + of_nat (length bs) * 100 + (of_nat (length bs) - 1) * 24 + 24
                      \<and> ch = 148) \<or> length bs = 1)
              then Some (ElementShape ex ey ew eh ec)
              else Some (ElementShape (cx + (24 + of_nat k * 124)) (cy + 24) ew eh ec))"
proof -
  define e' where "e' = toId (bs ! k)"
  define old where "old = ElementShape ex ey ew eh ec"
  define slot where "slot = ElementShape (cx + (24 + of_nat k * 124)) (cy + 24) ew eh ec"
  define s' where "s' = updateElementsForContainer t s"
  define I :: "shape option set \<Rightarrow> 'k editor \<Rightarrow> bool" where
    "I = (\<lambda>X u. bindings u = bindings s
                \<and> (\<exists>cw' ch'. getShape u (fromId t) = Some (ContainerShape cx cy cw' ch'))
                \<and> getShape u e' \<in> X)"
  have ne: "bs \<noteq> []" using k by auto
  have mem: "bs ! k \<in> set bs" using k by simp
  have inj: "inj_on toId (set bs)" using d by (simp add: distinct_map)
  have eq: "(toId t = toId (bs ! k)) = (bs ! k = t)"
  proof (cases "t \<in> set bs")
    case True
    then show ?thesis using inj mem by (auto dest: inj_onD)
  next
    case False
    then have "toId t \<notin> toId ` set bs" using tr by simp
    then show ?thesis using mem False by auto
  qed
  have setbs: "set bs = set (getBindingsFromShape s (fromId t))" by (simp add: bs)
  \<comment> \<open>one reflow of the container, triggered by a stored binding\<close>
  have one: "getShape (updateElementsForContainer t' u) e'
               = (if t' = bs ! k \<and> placeholder t' then Some (ElementShape x y ew eh ec) else Some slot)
             \<and> I {Some slot, Some (ElementShape x y ew eh ec)} (updateElementsForContainer t' u)"
    if f: "fromId t' = fromId t" and tb: "t' \<in> set (bindings u)"
      and b: "bindings u = bindings s"
      and cu: "getShape u (fromId t) = Some (ContainerShape cx cy cw' ch')"
      and eu: "getShape u e' = Some (ElementShape x y ew eh ec)"
    for t' :: "'k binding" and u :: "'k editor" and cw' ch' x y
  proof -
    have bsu: "bs = sort_key index (getBindingsFromShape u (fromId t'))"
      using b f by (simp add: bs getBindingsFromShape_def)
    have t'bs: "t' \<in> set bs" using tb b f by (simp add: setbs getBindingsFromShape_def)
    have eq': "(toId t' = toId (bs ! k)) = (t' = bs ! k)"
      using inj mem t'bs by (auto dest: inj_onD)
    have cu': "getShape u (fromId t') = Some (ContainerShape cx cy cw' ch')" using cu f by simp
    have eu': "getShape u (toId (bs ! k)) = Some (ElementShape x y ew eh ec)"
      using eu by (simp add: e'_def)
    from member_step[OF cu' bsu d k eu']
    show ?thesis by (auto simp: I_def e'_def slot_def eq' f b)
  qed
  have clear: "\<And>X u. I X u \<Longrightarrow> I X (u\<lparr>pending := []\<rparr>)" by (simp add: I_def)
  have step_slot: "I {Some slot} (updateElementsForContainer t' u)"
    if "fromId t' \<in> {fromId t}" "t' \<in> set (bindings u)" "I {Some slot} u"
    for t' :: "'k binding" and u :: "'k editor"
  proof -
    from that(3) obtain cw' ch' where b: "bindings u = bindings s"
      and cu: "getShape u (fromId t) = Some (ContainerShape cx cy cw' ch')"
      and eu: "getShape u e' = Some (ElementShape (cx + (24 + of_nat k * 124)) (cy + 24) ew eh ec)"
      by (auto simp: I_def slot_def)
    from one[OF _ that(2) b cu eu] that(1) show ?thesis by (auto simp: I_def slot_def)
  qed
  have step_any: "I {Some slot, Some old} (updateElementsForContainer t' u)"
    if "fromId t' \<in> {fromId t}" "t' \<in> set (bindings u)" "I {Some slot, Some old} u"
    for t' :: "'k binding" and u :: "'k editor"
  proof -
    from that(3) obtain cw' ch' where b: "bindings u = bindings s"
      and cu: "getShape u (fromId t) = Some (ContainerShape cx cy cw' ch')"
      and eu: "getShape u e' = Some slot \<or> getShape u e' = Some old"
      by (auto simp: I_def)
    from eu show ?thesis
    proof
      assume "getShape u e' = Some slot"
      then have eu: "getShape u e' = Some (ElementShape (cx + (24 + of_nat k * 124)) (cy + 24) ew eh ec)"
        by (simp add: slot_def)
      from one[OF _ that(2) b cu eu] that(1) show ?thesis by (auto simp: I_def slot_def)
    next
      assume "getShape u e' = Some old"
      then have eu: "getShape u e' = Some (ElementShape ex ey ew eh ec)" by (simp add: old_def)
      from one[OF _ that(2) b cu eu] that(1) show ?thesis by (auto simp: I_def old_def)
    qed
  qed
  \<comment> \<open>the store when the reflow returns\<close>
  have b': "bindings s' = bindings s" by (simp add: s'_def)
  have c': "\<exists>cw' ch'. getShape s' (fromId t) = Some (ContainerShape cx cy cw' ch')"
    and e1: "getShape s' e' = (if bs ! k = t \<and> placeholder t then Some old else Some slot)"
    using member_step[OF c bs d k e] by (simp_all add: s'_def e'_def old_def slot_def eq)
  have q': "\<forall>(i, b) \<in> set (pending s'). is_container s' i \<longrightarrow> i \<in> {fromId t}"
  proof (clarsimp)
    fix i b assume m: "(i, b) \<in> set (pending s')" and ic: "is_container s' i"
    from pending_reflow[OF m[unfolded s'_def]] ic q show "i = fromId t" by (auto simp: s'_def)
  qed
  show ?thesis
  proof (cases "bs ! k = t \<and> placeholder t")
    case False
    have "I {Some slot} s'" using b' c' e1 False by (auto simp: I_def)
    from flush_restricted[of "I {Some slot}" s' "{fromId t}" "Suc n", OF this q' clear step_slot]
    show ?thesis using False by (auto simp add: I_def s'_def e'_def slot_def simp del: flush.simps)
  next
    case skip: True
    show ?thesis
    proof (cases "cw = 24 + of_nat (length bs) * 100 + (of_nat (length bs) - 1) * 24 + 24 \<and> ch = 148")
      case True
      have sz: "sized s (fromId t)" using True c by (simp add: sized_def bs)
      have "events_inert s'"
        unfolding events_inert_def
      proof (clarsimp)
        fix i b assume m: "(i, b) \<in> set (pending s')" and ic: "is_container s' i"
        from pending_reflow[OF m[unfolded s'_def]] ic q sz show False by (auto simp: s'_def)
      qed
      from getShape_inert_flush[OF this, of "Suc n"] e1 skip True
      show ?thesis by (simp add: s'_def e'_def old_def del: flush.simps)
    next
      case resized: False
      then have r: "24 + of_nat (length bs) * 100 + (of_nat (length bs) - 1) * 24 + 24 \<noteq> cw \<or> 148 \<noteq> ch"
        by auto
      have ev: "(fromId t, ContainerShape cx cy cw ch) \<in> set (pending s')"
        unfolding s'_def by (rule pending_reflow_resize[OF c bs ne r q])
      have changed: "getShape s' (fromId t) \<noteq> Some (ContainerShape cx cy cw ch)"
        using reflow_container[OF c bs ne] r by (auto simp: s'_def)
      show ?thesis
      proof (cases "length bs = 1")
        case True
        have only: "t' = bs ! k" if "t' \<in> set bs" for t'
          using True that k by (cases bs) auto
        have step_old: "I {Some old} (updateElementsForContainer t' u)"
          if "fromId t' \<in> {fromId t}" "t' \<in> set (bindings u)" "I {Some old} u"
          for t' :: "'k binding" and u :: "'k editor"
        proof -
          from that(3) obtain cw' ch' where b: "bindings u = bindings s"
            and cu: "getShape u (fromId t) = Some (ContainerShape cx cy cw' ch')"
            and eu: "getShape u e' = Some (ElementShape ex ey ew eh ec)"
            by (auto simp: I_def old_def)
          have "t' \<in> set bs" using that(1,2) b by (simp add: setbs getBindingsFromShape_def)
          then have "t' = t" using only skip by simp
          with one[OF _ that(2) b cu eu] that(1) skip show ?thesis
            by (auto simp: I_def old_def)
        qed
        have "I {Some old} s'" using b' c' e1 skip by (auto simp: I_def)
        from flush_restricted[of "I {Some old}" s' "{fromId t}" "Suc n", OF this q' clear step_old]
        show ?thesis using skip True by (simp add: I_def s'_def e'_def old_def del: flush.simps)
      next
        case many: False
        define j where "j = (if k = 0 then 1 else 0 :: nat)"
        have j: "j < length bs" "j \<noteq> k" using many k by (auto simp: j_def)
        have "distinct bs" using d by (simp add: distinct_map)
        then have "bs ! j \<noteq> bs ! k" using j k by (simp add: nth_eq_iff_index_eq)
        then obtain b where bb: "b \<in> set bs" and bne: "b \<noteq> bs ! k"
          using j(1) nth_mem by blast
        let ?evs = "filter (\<lambda>(i, prev). getShape s' i \<noteq> Some prev) (pending s')"
        let ?f = "\<lambda>(i, prev). shapeChanged i :: 'k editor \<Rightarrow> 'k editor"
        have "(fromId t, ContainerShape cx cy cw ch) \<in> set ?evs" using ev changed by simp
        then obtain evs1 evs2 where evs: "?evs = evs1 @ (fromId t, ContainerShape cx cy cw ch) # evs2"
          by (meson split_list)
        have qe: "\<forall>(i, b) \<in> set ?evs. is_container s' i \<longrightarrow> i \<in> {fromId t}" using q' by auto
        define u0 where "u0 = s'\<lparr>pending := []\<rparr>"
        define u1 where "u1 = fold ?f evs1 u0"
        have I0: "I {Some slot, Some old} u0" using b' c' e1 skip by (auto simp: I_def u0_def)
        have q0: "\<forall>(i, b) \<in> set (pending u0). is_container u0 i \<longrightarrow> i \<in> {fromId t}"
          by (simp add: u0_def)
        have qe1: "\<forall>(i, b) \<in> set evs1. is_container u0 i \<longrightarrow> i \<in> {fromId t}"
          using qe evs by (auto simp: u0_def)
        note r1 = fold_shapeChanged_restricted[of "I {Some slot, Some old}" u0 "{fromId t}" evs1,
            OF I0 q0 qe1 step_any, folded u1_def]
        have I1: "I {Some slot, Some old} u1" using r1 by simp
        have q1: "\<forall>(i, b) \<in> set (pending u1). is_container u1 i \<longrightarrow> i \<in> {fromId t}"
          using r1 by auto
        have ic1: "\<And>j. is_container u1 j = is_container u0 j" using r1 by simp
        \<comment> \<open>the event of the container: one reflow per binding of the container\<close>
        have b1: "bindings u1 = bindings s" using I1 by (simp add: I_def)
        have "b \<in> set (getBindingsFromShape u1 (fromId t))"
          using bb b1 by (simp add: setbs getBindingsFromShape_def)
        then obtain ts1 ts2 where ts: "getBindingsFromShape u1 (fromId t) = ts1 @ b # ts2"
          by (meson split_list)
        have tsub: "set (ts1 @ b # ts2) \<subseteq> set (bindings u1)"
          unfolding ts[symmetric] by (auto simp: getBindingsFromShape_def)
        have tfrom: "\<forall>t' \<in> set (ts1 @ b # ts2). fromId t' = fromId t"
          unfolding ts[symmetric] by (auto simp: getBindingsFromShape_def)
        define u2 where "u2 = fold updateElementsForContainer ts1 u1"
        have t1: "\<forall>t' \<in> set ts1. is_container u1 (fromId t') \<longrightarrow> fromId t' \<in> {fromId t}"
          using tfrom by simp
        have tb1: "set ts1 \<subseteq> set (bindings u1)" using tsub by simp
        note r2 = fold_reflow_restricted[of "I {Some slot, Some old}" u1 "{fromId t}" ts1,
            OF I1 q1 t1 tb1 step_any, folded u2_def]
        have I2: "I {Some slot, Some old} u2" using r2 by simp
        have q2: "\<forall>(i, b) \<in> set (pending u2). is_container u2 i \<longrightarrow> i \<in> {fromId t}"
          using r2 by auto
        have b2: "bindings u2 = bindings s" using I2 by (simp add: I_def)
        define u3 where "u3 = updateElementsForContainer b u2"
        have bf: "fromId b = fromId t" using tfrom by simp
        have bin: "b \<in> set (bindings u2)" using tsub b2 b1 by simp
        have I3: "I {Some slot} u3"
        proof -
          from I2 obtain cw' ch' where cu: "getShape u2 (fromId t) = Some (ContainerShape cx cy cw' ch')"
            and eu: "getShape u2 e' = Some slot \<or> getShape u2 e' = Some old"
            by (auto simp: I_def)
          from eu show ?thesis
          proof
            assume "getShape u2 e' = Some slot"
            then have eu: "getShape u2 e' = Some (ElementShape (cx + (24 + of_nat k * 124)) (cy + 24) ew eh ec)"
              by (simp add: slot_def)
            from one[OF bf bin b2 cu eu] bne show ?thesis by (auto simp: I_def slot_def u3_def)
          next
            assume "getShape u2 e' = Some old"
            then have eu: "getShape u2 e' = Some (ElementShape ex ey ew eh ec)" by (simp add: old_def)
            from one[OF bf bin b2 cu eu] bne show ?thesis by (auto simp: I_def slot_def u3_def)
          qed
        qed
        have tc: "is_container u2 (fromId b) \<longrightarrow> fromId b \<in> {fromId t}" using bf by simp
        have step_weak: "\<And>(t' :: 'k binding) u. fromId t' \<in> {fromId t} \<Longrightarrow> t' \<in> set (bindings u)
            \<Longrightarrow> True \<Longrightarrow> True" by simp
        note r3 = reflow_restricted[of "\<lambda>u. True" u2 "{fromId t}" b, OF _ q2 tc bin, folded u3_def]
        have q3: "\<forall>(i, b) \<in> set (pending u3). is_container u3 i \<longrightarrow> i \<in> {fromId t}"
          using r3 by simp
        define u4 where "u4 = fold updateElementsForContainer ts2 u3"
        have b3: "bindings u3 = bindings s" using I3 by (simp add: I_def)
        have t3: "\<forall>t' \<in> set ts2. is_container u3 (fromId t') \<longrightarrow> fromId t' \<in> {fromId t}"
          using tfrom by simp
        have tb3: "set ts2 \<subseteq> set (bindings u3)" using tsub b3 b1 by simp
        note r4 = fold_reflow_restricted[of "I {Some slot}" u3 "{fromId t}" ts2,
            OF I3 q3 t3 tb3 step_slot, folded u4_def]
        have I4: "I {Some slot} u4" using r4 by simp
        have ic4: "\<And>j. is_container u4 j = is_container u0 j"
          using r4 r2 ic1 by (simp add: u3_def)
        have q4: "\<forall>(i, b) \<in> set (pending u4). is_container u4 i \<longrightarrow> i \<in> {fromId t}"
          using r4 ic4 by (auto simp: u3_def)
        have u4: "u4 = shapeChanged (fromId t) u1"
          by (simp add: shapeChanged_eq ts u4_def u3_def u2_def)
        define u5 where "u5 = fold ?f evs2 u4"
        have qe2: "\<forall>(i, b) \<in> set evs2. is_container u4 i \<longrightarrow> i \<in> {fromId t}"
          using qe evs ic4 by (auto simp: u0_def)
        note r5 = fold_shapeChanged_restricted[of "I {Some slot}" u4 "{fromId t}" evs2,
            OF I4 q4 qe2 step_slot, folded u5_def]
        have I5: "I {Some slot} u5" using r5 by simp
        have q5: "\<forall>(i, b) \<in> set (pending u5). is_container u5 i \<longrightarrow> i \<in> {fromId t}"
          using r5 by auto
        have round: "flush_round s' = u5"
          by (simp add: flush_round_def Let_def evs u5_def u4 u1_def u0_def)
        have pn: "pending s' \<noteq> []" using ev by auto
        have fl: "flush (Suc n) s' = flush n u5" using pn round by simp
        have "I {Some slot} (flush n u5)"
          by (rule flush_restricted[of "I {Some slot}" u5 "{fromId t}" n, OF I5 q5 clear step_slot])
        then have "getShape (flush (Suc n) s') e' = Some slot" unfolding fl by (simp add: I_def)
        then show ?thesis using skip resized many
          by (auto simp add: s'_def e'_def slot_def simp del: flush.simps)
      qed
    qed
  qed
qed

subsection \<open>Binding storage\<close>

lemma bindings_createBinding [simp]: "bindings (createBinding b s) = bindings s @ [b]"
  by (simp add: createBinding_def atomic_def)

lemma bindings_deleteBindings [simp]:
  "bindings (deleteBindings bs s) = filter (\<lambda>b. bid b \<notin> bid ` set bs) (bindings s)"
  by (simp add: deleteBindings_def atomic_def Let_def)

lemma bindings_updateBindings:
  "bindings (updateBindings ps s) =
     fold put_binding (filter (\<lambda>b'. \<exists>cur \<in> set (bindings s). bid cur = bid b' \<and> cur \<noteq> b') ps) (bindings s)"
  by (simp add: updateBindings_def atomic_def Let_def)

lemma all_sized_createBinding:
  assumes "all_sized s"
  shows "all_sized (createBinding b s)"
  unfolding all_sized_def
proof
  fix c
  let ?s1 = "s\<lparr>pending := [], bindings := bindings s @ [b]\<rparr>"
  have "sized (run_hook OnAfterCreate b ?s1) c"
  proof (cases "c = fromId b")
    case True
    show ?thesis unfolding True
      by (simp add: run_hook_reflow sized_reflow_self)
  next
    case False
    have "sized ?s1 c = sized s c"
      by (rule sized_cong) (use False in \<open>simp_all add: getBindingsFromShape_def\<close>)
    then have "sized ?s1 c" using assms by (simp add: all_sized_def)
    then show ?thesis by (rule sized_run_hook)
  qed
  then show "sized (createBinding b s) c"
    unfolding createBinding_def by (intro sized_atomic) simp
qed

lemma all_sized_deleteBindings:
  assumes "all_sized s"
  shows "all_sized (deleteBindings bs s)"
  unfolding all_sized_def
proof
  fix c
  let ?removed = "filter (\<lambda>b. bid b \<in> bid ` set bs) (bindings s)"
  let ?s1 = "s\<lparr>pending := [], bindings := filter (\<lambda>b. bid b \<notin> bid ` set bs) (bindings s)\<rparr>"
  have d: "deleteBindings bs s = flush 100 (fold (run_hook OnAfterDelete) ?removed ?s1)"
    by (simp add: deleteBindings_def atomic_def Let_def)
  show "sized (deleteBindings bs s) c"
  proof (cases "\<exists>b \<in> set ?removed. fromId b = c")
    case True
    then obtain b where b: "b \<in> set ?removed" and c: "c = fromId b" by blast
    show ?thesis unfolding d c by (rule sized_flush, rule sized_fold_hook_self[OF _ b]) simp
  next
    case False
    then have "filter (\<lambda>b. fromId b = c) (filter (\<lambda>b. bid b \<notin> bid ` set bs) (bindings s))
             = filter (\<lambda>b. fromId b = c) (bindings s)"
      by (auto intro!: filter_cong simp: )
    then have "sized ?s1 c = sized s c"
      by (intro sized_cong) (simp_all add: getBindingsFromShape_def)
    then have "sized ?s1 c" using assms by (simp add: all_sized_def)
    then show ?thesis unfolding d by (intro sized_flush sized_fold_hook)
  qed
qed

lemma set_put_binding:
  "cur \<in> set (put_binding b' bs) \<Longrightarrow>
   cur \<in> set bs \<or> (cur = b' \<and> (\<exists>cur0 \<in> set bs. bid cur0 = bid b'))"
  by (auto simp: put_binding_def split: if_splits)

lemma map_put_binding_proj:
  "\<forall>cur \<in> set bs. bid cur = bid b' \<longrightarrow> p cur = p b' \<Longrightarrow> map p (put_binding b' bs) = map p bs"
  by (auto simp: put_binding_def)

lemma fold_put_proj:
  assumes "\<forall>b' \<in> set ups. \<forall>cur \<in> set bs. bid cur = bid b' \<longrightarrow> p cur = p b'"
  shows "map p (fold put_binding ups bs) = map p bs"
  using assms(1)
proof (induction ups arbitrary: bs)
  case Nil
  then show ?case by simp
next
  case (Cons b' ups)
  have 1: "map p (put_binding b' bs) = map p bs"
    by (rule map_put_binding_proj) (use Cons.prems in simp)
  have 2: "\<forall>b'' \<in> set ups. \<forall>cur \<in> set (put_binding b' bs). bid cur = bid b'' \<longrightarrow> p cur = p b''"
  proof (intro ballI impI)
    fix b'' cur assume b'': "b'' \<in> set ups" and cur: "cur \<in> set (put_binding b' bs)"
      and eq: "bid cur = bid b''"
    from set_put_binding[OF cur] show "p cur = p b''"
    proof
      assume "cur \<in> set bs"
      then show ?thesis using Cons.prems b'' eq by simp
    next
      assume "cur = b' \<and> (\<exists>cur0 \<in> set bs. bid cur0 = bid b')"
      then obtain cur0 where c0: "cur0 \<in> set bs" "bid cur0 = bid b'" and cb: "cur = b'" by blast
      have "p cur0 = p b'" using Cons.prems c0 by simp
      moreover have "bid cur0 = bid b''" using c0 eq cb by simp
      then have "p cur0 = p b''" using Cons.prems c0(1) b'' by auto
      ultimately show ?thesis using cb by simp
    qed
  qed
  show ?case using Cons.IH[OF 2] 1 by simp
qed

lemma map_proj:
  "map p xs = map p ys \<Longrightarrow> (\<And>x. f x = f' (p x)) \<Longrightarrow> map f xs = map f ys"
proof -
  assume a: "map p xs = map p ys" and b: "\<And>x. f x = f' (p x)"
  have "map f xs = map f' (map p xs)" by (simp add: b)
  also have "\<dots> = map f' (map p ys)" by (simp only: a)
  also have "\<dots> = map f ys" by (simp add: b)
  finally show ?thesis .
qed

lemma map_filter_proj:
  assumes a: "map p xs = map p ys" and b: "\<And>x. P x = P' (p x)" and c: "\<And>x. f x = f' (p x)"
  shows "map f (filter P xs) = map f (filter P ys)"
proof -
  have "map f (filter P zs) = map f' (filter P' (map p zs))" for zs
    by (induction zs) (simp_all add: b c)
  then show ?thesis by (simp only: a)
qed

lemma bindings_updateBinding: "bindings (updateBinding b' s) = put_binding b' (bindings s)"
proof (cases "\<exists>cur \<in> set (bindings s). bid cur = bid b' \<and> cur \<noteq> b'")
  case True
  then show ?thesis by (simp add: updateBinding_def bindings_updateBindings)
next
  case False
  then have "put_binding b' (bindings s) = bindings s"
    unfolding put_binding_def by (intro map_idI) auto
  then show ?thesis using False by (simp add: updateBinding_def bindings_updateBindings)
qed

lemma all_sized_updateBindings:
  assumes a: "all_sized s"
    and m: "map fromId (bindings (updateBindings ps s)) = map fromId (bindings s)"
  shows "all_sized (updateBindings ps s)"
  unfolding all_sized_def
proof
  fix c
  let ?up = "filter (\<lambda>b'. \<exists>cur \<in> set (bindings s). bid cur = bid b' \<and> cur \<noteq> b') ps"
  let ?s1 = "s\<lparr>pending := [], bindings := fold put_binding ?up (bindings s)\<rparr>"
  have u: "updateBindings ps s = flush 100 (fold (run_hook OnAfterChange) ?up ?s1)"
    by (simp add: updateBindings_def atomic_def Let_def)
  have m1: "map fromId (bindings ?s1) = map fromId (bindings s)"
    using m by (simp add: bindings_updateBindings)
  have "map fromId (filter (\<lambda>b. fromId b = c) (bindings ?s1))
        = map fromId (filter (\<lambda>b. fromId b = c) (bindings s))"
    by (rule map_filter_proj[OF m1, where P'="\<lambda>x. x = c" and f'="\<lambda>x. x"]) simp_all
  then have "length (map fromId (filter (\<lambda>b. fromId b = c) (bindings ?s1)))
        = length (map fromId (filter (\<lambda>b. fromId b = c) (bindings s)))"
    by (rule arg_cong)
  then have len: "length (getBindingsFromShape ?s1 c) = length (getBindingsFromShape s c)"
    unfolding getBindingsFromShape_def length_map .
  have gs: "getShape ?s1 c = getShape s c" by simp
  have "sized ?s1 c = sized s c"
    by (rule sized_cong[OF gs len])
  moreover have "sized s c" using a by (simp add: all_sized_def)
  ultimately have "sized ?s1 c" by simp
  then show "sized (updateBindings ps s) c" unfolding u by (intro sized_flush sized_fold_hook)
qed

lemma ids_unique_inj:
  "ids_unique s \<Longrightarrow> a \<in> set (bindings s) \<Longrightarrow> b \<in> set (bindings s) \<Longrightarrow> bid a = bid b \<Longrightarrow> a = b"
  by (auto simp: ids_unique_def distinct_map dest: inj_onD)

lemma onTranslateStart_proj:
  assumes "ids_unique s"
  shows "map (\<lambda>b. (bid b, fromId b, toId b, index b)) (bindings (onTranslateStart e s))
       = map (\<lambda>b. (bid b, fromId b, toId b, index b)) (bindings s)"
  unfolding onTranslateStart_def bindings_updateBindings
proof (rule fold_put_proj, intro ballI impI)
  fix b' cur
  assume b': "b' \<in> set (filter (\<lambda>b'. \<exists>cur\<in>set (bindings s). bid cur = bid b' \<and> cur \<noteq> b')
                 (map (\<lambda>b. b\<lparr>placeholder := True\<rparr>) (getBindingsToShape s e)))"
    and cur: "cur \<in> set (bindings s)" and eq: "bid cur = bid b'"
  from b' obtain cur0 where c0: "cur0 \<in> set (bindings s)" and b0: "b' = cur0\<lparr>placeholder := True\<rparr>"
    by (auto simp: getBindingsToShape_def)
  have "cur = cur0" using ids_unique_inj[OF assms cur c0] eq b0 by simp
  then show "(bid cur, fromId cur, toId cur, index cur) = (bid b', fromId b', toId b', index b')"
    using b0 by simp
qed

lemma put_binding_proj3:
  assumes "ids_unique s" and "ex \<in> set (bindings s)"
    and "bid b' = bid ex" and "fromId b' = fromId ex" and "toId b' = toId ex"
  shows "map (\<lambda>b. (bid b, fromId b, toId b)) (put_binding b' (bindings s))
       = map (\<lambda>b. (bid b, fromId b, toId b)) (bindings s)"
proof (rule map_put_binding_proj, intro ballI impI)
  fix cur assume cur: "cur \<in> set (bindings s)" and eq: "bid cur = bid b'"
  have "cur = ex" using ids_unique_inj[OF assms(1) cur assms(2)] eq assms(3) by simp
  then show "(bid cur, fromId cur, toId cur) = (bid b', fromId b', toId b')"
    using assms by simp
qed

subsection \<open>The drag callbacks, case by case\<close>

lemma getTargetContainer_Some:
  assumes "getTargetContainer s sh a = Some (c, cont)"
  shows "getShape s c = Some cont \<and> hitInside cont a
       \<and> (\<exists>cx cy cw ch. cont = ContainerShape cx cy cw ch)"
proof -
  from assms have "getShape s c = Some cont \<and> canBindShapes cont sh ''layout'' \<and> hitInside cont a"
    unfolding getTargetContainer_def getShapeAtPoint_def find_Some_iff by auto
  moreover have "canBindShapes cont sh ''layout'' \<Longrightarrow> \<exists>cx cy cw ch. cont = ContainerShape cx cy cw ch"
    by (cases cont; cases sh)
       (auto simp: canBindShapes_def shapeUtil_canBind_def ContainerShapeUtil_canBind_def
          ElementShapeUtil_canBind_def)
  ultimately show ?thesis by blast
qed

lemma find_own_Some:
  "find (\<lambda>b. toId b = e) (getBindingsFromShape s c) = Some ex \<Longrightarrow>
   ex \<in> set (bindings s) \<and> fromId ex = c \<and> toId ex = e"
  unfolding find_Some_iff getBindingsFromShape_def
  by (metis (mono_tags, lifting) mem_Collect_eq nth_mem set_filter)

lemma find_own_None:
  "find (\<lambda>b. toId b = e) (getBindingsFromShape s c) = None \<Longrightarrow>
   b \<in> set (bindings s) \<Longrightarrow> fromId b = c \<Longrightarrow> toId b \<noteq> e"
  unfolding find_None_iff getBindingsFromShape_def by auto

lemma onTranslate_cases [case_names detach keep update create]:
  assumes "\<lbrakk>getTargetContainer s sh (sx sh + 50, sy sh + 50) = None;
            onTranslate g e sh s = deleteBindings (getBindingsToShape s e) s\<rbrakk> \<Longrightarrow> P"
    and "\<And>c cont ex. \<lbrakk>getTargetContainer s sh (sx sh + 50, sy sh + 50) = Some (c, cont);
            find (\<lambda>b. toId b = e) (getBindingsFromShape s c) = Some ex;
            index ex = getBindingIndexForPosition g s e (c, cont) (sx sh + 50, sy sh + 50);
            onTranslate g e sh s = s\<rbrakk> \<Longrightarrow> P"
    and "\<And>c cont ex. \<lbrakk>getTargetContainer s sh (sx sh + 50, sy sh + 50) = Some (c, cont);
            find (\<lambda>b. toId b = e) (getBindingsFromShape s c) = Some ex;
            index ex \<noteq> getBindingIndexForPosition g s e (c, cont) (sx sh + 50, sy sh + 50);
            onTranslate g e sh s =
              updateBinding (ex\<lparr>placeholder := True,
                 index := getBindingIndexForPosition g s e (c, cont) (sx sh + 50, sy sh + 50)\<rparr>) s\<rbrakk> \<Longrightarrow> P"
    and "\<And>c cont. \<lbrakk>getTargetContainer s sh (sx sh + 50, sy sh + 50) = Some (c, cont);
            find (\<lambda>b. toId b = e) (getBindingsFromShape s c) = None;
            onTranslate g e sh s =
              createBinding \<lparr>bid = createBindingId s, fromId = c, toId = e,
                 index = getBindingIndexForPosition g s e (c, cont) (sx sh + 50, sy sh + 50),
                 placeholder = True\<rparr> s\<rbrakk> \<Longrightarrow> P"
  shows P
proof (cases "getTargetContainer s sh (sx sh + 50, sy sh + 50)")
  case None
  then show ?thesis using assms(1) by (simp add: onTranslate_def)
next
  case (Some tc)
  obtain c cont where tc: "tc = (c, cont)" by (cases tc)
  note t = Some[unfolded tc]
  show ?thesis
  proof (cases "find (\<lambda>b. toId b = e) (getBindingsFromShape s c)")
    case None
    show ?thesis by (rule assms(4)[OF t None]) (simp add: onTranslate_def t None)
  next
    case (Some ex)
    show ?thesis
    proof (cases "index ex = getBindingIndexForPosition g s e (c, cont) (sx sh + 50, sy sh + 50)")
      case True
      show ?thesis by (rule assms(2)[OF t Some True]) (simp add: onTranslate_def t Some True)
    next
      case False
      show ?thesis by (rule assms(3)[OF t Some False]) (simp add: onTranslate_def t Some False)
    qed
  qed
qed

lemma onTranslateEnd_cases [case_names none drop]:
  assumes "\<lbrakk>getTargetContainer s sh (sx sh + 50, sy sh + 50) = None;
            onTranslateEnd g e sh s = s\<rbrakk> \<Longrightarrow> P"
    and "\<And>c cont. \<lbrakk>getTargetContainer s sh (sx sh + 50, sy sh + 50) = Some (c, cont);
            onTranslateEnd g e sh s =
              createBinding \<lparr>bid = createBindingId (deleteBindings (getBindingsToShape s e) s),
                 fromId = c, toId = e,
                 index = getBindingIndexForPosition g s e (c, cont) (sx sh + 50, sy sh + 50),
                 placeholder = False\<rparr> (deleteBindings (getBindingsToShape s e) s)\<rbrakk> \<Longrightarrow> P"
  shows P
proof (cases "getTargetContainer s sh (sx sh + 50, sy sh + 50)")
  case None
  then show ?thesis using assms(1) by (simp add: onTranslateEnd_def)
next
  case (Some tc)
  obtain c cont where tc: "tc = (c, cont)" by (cases tc)
  note t = Some[unfolded tc]
  show ?thesis by (rule assms(2)[OF t]) (simp add: onTranslateEnd_def t Let_def)
qed

subsection \<open>Unique ids and unique pairs\<close>

lemma createBindingId_fresh: "b \<in> set (bindings s) \<Longrightarrow> bid b < createBindingId s"
proof -
  have "x \<in> set xs \<Longrightarrow> x \<le> foldr max xs (0::nat)" for x xs
    by (induction xs) auto
  then show "b \<in> set (bindings s) \<Longrightarrow> bid b < createBindingId s"
    unfolding createBindingId_def by (metis image_eqI le_imp_less_Suc list.set_map)
qed

lemma ids_unique_deleteBindings: "ids_unique s \<Longrightarrow> ids_unique (deleteBindings bs s)"
  by (simp add: ids_unique_def distinct_map_filter)

lemma pair_unique_deleteBindings: "pair_unique s \<Longrightarrow> pair_unique (deleteBindings bs s)"
  by (simp add: pair_unique_def distinct_map_filter)

lemma ids_unique_createBinding:
  assumes "ids_unique s" and "bid b = createBindingId s"
  shows "ids_unique (createBinding b s)"
proof -
  have "bid b \<notin> bid ` set (bindings s)"
  proof
    assume "bid b \<in> bid ` set (bindings s)"
    then obtain x where "x \<in> set (bindings s)" "bid x = bid b" by auto
    then show False using createBindingId_fresh[of x s] assms(2) by simp
  qed
  then show ?thesis using assms(1) by (simp add: ids_unique_def)
qed

lemma pair_unique_createBinding:
  assumes "pair_unique s"
    and "\<And>b'. b' \<in> set (bindings s) \<Longrightarrow> fromId b' = fromId b \<Longrightarrow> toId b' \<noteq> toId b"
  shows "pair_unique (createBinding b s)"
proof -
  have "(fromId b, toId b) \<notin> (\<lambda>b. (fromId b, toId b)) ` set (bindings s)"
    using assms(2) by force
  then show ?thesis using assms(1) by (simp add: pair_unique_def)
qed

lemma ids_unique_onTranslateStart:
  assumes "ids_unique s"
  shows "ids_unique (onTranslateStart e s)"
proof -
  have "map bid (bindings (onTranslateStart e s)) = map bid (bindings s)"
    by (rule map_proj[OF onTranslateStart_proj[OF assms], where f'=fst]) simp
  then show ?thesis using assms by (simp add: ids_unique_def)
qed

lemma pair_unique_onTranslateStart:
  assumes "ids_unique s" and "pair_unique s"
  shows "pair_unique (onTranslateStart e s)"
proof -
  have "map (\<lambda>b. (fromId b, toId b)) (bindings (onTranslateStart e s))
      = map (\<lambda>b. (fromId b, toId b)) (bindings s)"
    by (rule map_proj[OF onTranslateStart_proj[OF assms(1)], where f'="\<lambda>(i, f, t, k). (f, t)"]) simp
  then show ?thesis using assms(2) by (simp add: pair_unique_def)
qed

lemma all_sized_onTranslateStart:
  assumes "ids_unique s" "all_sized s"
  shows "all_sized (onTranslateStart e s)"
  unfolding onTranslateStart_def
proof (rule all_sized_updateBindings[OF assms(2)])
  show "map fromId (bindings (updateBindings (map (\<lambda>b. b\<lparr>placeholder := True\<rparr>) (getBindingsToShape s e)) s))
      = map fromId (bindings s)"
    unfolding onTranslateStart_def[symmetric]
    by (rule map_proj[OF onTranslateStart_proj[OF assms(1)], where f'="\<lambda>(i, f, t, k). f"]) simp
qed

lemma updateBinding_proj3:
  assumes "ids_unique s" and "ex \<in> set (bindings s)"
  shows "map (\<lambda>b. (bid b, fromId b, toId b)) (bindings (updateBinding (ex\<lparr>placeholder := True, index := k\<rparr>) s))
       = map (\<lambda>b. (bid b, fromId b, toId b)) (bindings s)"
  unfolding bindings_updateBinding
  by (rule put_binding_proj3[OF assms]) simp_all

lemma ids_unique_onTranslate:
  assumes "ids_unique s"
  shows "ids_unique (onTranslate g e sh s)"
proof (cases rule: onTranslate_cases[of s sh g e])
  case detach
  then show ?thesis using assms by (simp add: ids_unique_deleteBindings)
next
  case (keep c cont ex)
  then show ?thesis using assms by simp
next
  case (update c cont ex)
  have ex: "ex \<in> set (bindings s)" using find_own_Some[OF update(2)] by simp
  have "map bid (bindings (onTranslate g e sh s)) = map bid (bindings s)"
    unfolding update(4)
    by (rule map_proj[OF updateBinding_proj3[OF assms ex], where f'=fst]) simp
  then show ?thesis using assms by (simp add: ids_unique_def)
next
  case (create c cont)
  show ?thesis unfolding create(3) by (rule ids_unique_createBinding[OF assms]) simp
qed

lemma pair_unique_onTranslate:
  assumes "ids_unique s" and "pair_unique s"
  shows "pair_unique (onTranslate g e sh s)"
proof (cases rule: onTranslate_cases[of s sh g e])
  case detach
  then show ?thesis using assms by (simp add: pair_unique_deleteBindings)
next
  case (keep c cont ex)
  then show ?thesis using assms by simp
next
  case (update c cont ex)
  have ex: "ex \<in> set (bindings s)" using find_own_Some[OF update(2)] by simp
  have "map (\<lambda>b. (fromId b, toId b)) (bindings (onTranslate g e sh s))
      = map (\<lambda>b. (fromId b, toId b)) (bindings s)"
    unfolding update(4)
    by (rule map_proj[OF updateBinding_proj3[OF assms(1) ex], where f'=snd]) simp
  then show ?thesis using assms by (simp add: pair_unique_def)
next
  case (create c cont)
  show ?thesis unfolding create(3)
    by (rule pair_unique_createBinding[OF assms(2)]) (use find_own_None[OF create(2)] in simp)
qed

lemma all_sized_onTranslate:
  assumes "ids_unique s" and "all_sized s"
  shows "all_sized (onTranslate g e sh s)"
proof (cases rule: onTranslate_cases[of s sh g e])
  case detach
  then show ?thesis using assms by (simp add: all_sized_deleteBindings)
next
  case (keep c cont ex)
  then show ?thesis using assms by simp
next
  case (update c cont ex)
  have ex: "ex \<in> set (bindings s)" using find_own_Some[OF update(2)] by simp
  show ?thesis unfolding update(4) updateBinding_def
  proof (rule all_sized_updateBindings[OF assms(2)])
    show "map fromId (bindings (updateBindings
              [ex\<lparr>placeholder := True,
                 index := getBindingIndexForPosition g s e (c, cont) (sx sh + 50, sy sh + 50)\<rparr>] s))
          = map fromId (bindings s)"
      unfolding updateBinding_def[symmetric]
      by (rule map_proj[OF updateBinding_proj3[OF assms(1) ex], where f'="\<lambda>(i, f, t). f"]) simp
  qed
next
  case (create c cont)
  show ?thesis unfolding create(3) by (rule all_sized_createBinding[OF assms(2)])
qed

lemma ids_unique_onTranslateEnd:
  assumes "ids_unique s"
  shows "ids_unique (onTranslateEnd g e sh s)"
proof (cases rule: onTranslateEnd_cases[of s sh g e])
  case none
  then show ?thesis using assms by simp
next
  case (drop c cont)
  show ?thesis unfolding drop(2)
    by (rule ids_unique_createBinding[OF ids_unique_deleteBindings[OF assms]]) simp
qed

lemma pair_unique_onTranslateEnd:
  assumes "pair_unique s"
  shows "pair_unique (onTranslateEnd g e sh s)"
proof (cases rule: onTranslateEnd_cases[of s sh g e])
  case none
  then show ?thesis using assms by simp
next
  case (drop c cont)
  show ?thesis unfolding drop(2)
  proof (rule pair_unique_createBinding[OF pair_unique_deleteBindings[OF assms]])
    fix b' assume "b' \<in> set (bindings (deleteBindings (getBindingsToShape s e) s))"
    then have "b' \<in> set (bindings s)" and "bid b' \<notin> bid ` set (getBindingsToShape s e)" by simp_all
    then have "toId b' \<noteq> e" by (auto simp: getBindingsToShape_def)
    then show "toId b' \<noteq> toId \<lparr>bid = createBindingId (deleteBindings (getBindingsToShape s e) s),
                 fromId = c, toId = e,
                 index = getBindingIndexForPosition g s e (c, cont) (sx sh + 50, sy sh + 50),
                 placeholder = False\<rparr>" by simp
  qed
qed

lemma all_sized_onTranslateEnd:
  assumes "all_sized s"
  shows "all_sized (onTranslateEnd g e sh s)"
proof (cases rule: onTranslateEnd_cases[of s sh g e])
  case none
  then show ?thesis using assms by simp
next
  case (drop c cont)
  show ?thesis unfolding drop(2)
    by (rule all_sized_createBinding[OF all_sized_deleteBindings[OF assms]])
qed

lemma sized_updateShape_set_xy:
  assumes "getShape s i = Some sh" and "sized s c"
  shows "sized (updateShape i (set_xy px py sh) s) c"
proof (cases "c = i")
  case False
  have "sized (updateShape i (set_xy px py sh) s) c = sized s c"
    by (rule sized_cong) (use False in \<open>simp_all add: getShape_updateShape getBindingsFromShape_def\<close>)
  then show ?thesis using assms(2) by simp
next
  case True
  show ?thesis using assms unfolding True
    by (cases sh) (auto simp: sized_def getShape_updateShape getBindingsFromShape_def)
qed

lemma bindings_moveShape [simp]: "bindings (moveShape i sh s) = bindings s"
  by (simp add: moveShape_def atomic_def)

lemma all_sized_moved:
  assumes "getShape s i = Some sh" and "all_sized s"
  shows "all_sized (moveShape i (set_xy px py sh) s)"
  unfolding all_sized_def moveShape_def
proof
  fix c
  have "sized (s\<lparr>pending := []\<rparr>) c" using assms(2) by (simp add: all_sized_def)
  moreover have "getShape (s\<lparr>pending := []\<rparr>) i = Some sh" using assms(1) by simp
  ultimately have "sized (updateShape i (set_xy px py sh) (s\<lparr>pending := []\<rparr>)) c"
    by (rule sized_updateShape_set_xy[rotated])
  then show "sized (atomic (updateShape i (set_xy px py sh)) s) c" by (rule sized_atomic)
qed

subsection \<open>Committed bindings\<close>

lemma list_all2_put_binding:
  assumes "\<And>x. R x x" and "\<And>cur. cur \<in> set bs \<Longrightarrow> bid cur = bid b' \<Longrightarrow> R cur b'"
  shows "list_all2 R bs (put_binding b' bs)"
  unfolding put_binding_def list_all2_map2
  by (rule list_all2_same[THEN iffD2]) (use assms in auto)

lemma fold_put_rel:
  assumes r: "\<And>x. R x x" and t: "\<And>x y z. R x y \<Longrightarrow> R y z \<Longrightarrow> R x z"
    and a: "\<And>b' cur. b' \<in> set ups \<Longrightarrow> cur \<in> set bs \<union> set ups \<Longrightarrow> bid cur = bid b' \<Longrightarrow> R cur b'"
  shows "list_all2 R bs (fold put_binding ups bs)"
  using a
proof (induction ups arbitrary: bs)
  case Nil
  then show ?case by (simp add: list_all2_same r)
next
  case (Cons b' ups)
  have 1: "list_all2 R bs (put_binding b' bs)"
    by (rule list_all2_put_binding[OF r]) (use Cons.prems in auto)
  have 2: "list_all2 R (put_binding b' bs) (fold put_binding ups (put_binding b' bs))"
  proof (rule Cons.IH)
    fix b'' cur
    assume b'': "b'' \<in> set ups" and cur: "cur \<in> set (put_binding b' bs) \<union> set ups"
      and eq: "bid cur = bid b''"
    have "cur \<in> set bs \<union> set (b' # ups)"
      using cur set_put_binding[of cur b' bs] by auto
    then show "R cur b''" using Cons.prems[of b'' cur] b'' eq by simp
  qed
  have "list_all2 R bs (fold put_binding ups (put_binding b' bs))"
    using list_all2_trans[of R R R, OF _ 1 2] t by blast
  then show ?case by simp
qed

lemma committed_rel_length:
  "list_all2 (\<lambda>b b'. toId b = toId b' \<and> (placeholder b \<longrightarrow> placeholder b')) bs bs' \<Longrightarrow>
   length (filter (\<lambda>b. \<not> placeholder b) (filter (\<lambda>b. toId b = e) bs'))
   \<le> length (filter (\<lambda>b. \<not> placeholder b) (filter (\<lambda>b. toId b = e) bs))"
  by (induction rule: list_all2_induct) auto

lemma committed_unique_rel:
  assumes "committed_unique s"
    and "list_all2 (\<lambda>b b'. toId b = toId b' \<and> (placeholder b \<longrightarrow> placeholder b')) (bindings s) (bindings s')"
  shows "committed_unique s'"
  unfolding committed_unique_def getBindingsToShape_def
proof
  fix e
  show "length (filter (\<lambda>b. \<not> placeholder b) (filter (\<lambda>b. toId b = e) (bindings s'))) \<le> 1"
    using committed_rel_length[OF assms(2), of e] assms(1)
    unfolding committed_unique_def getBindingsToShape_def
    by (meson le_trans)
qed

lemma committed_unique_onTranslateStart:
  assumes i: "ids_unique s" and c: "committed_unique s"
  shows "committed_unique (onTranslateStart e s)"
proof (rule committed_unique_rel[OF c])
  let ?R = "\<lambda>b b'. toId b = toId b' \<and> (placeholder b \<longrightarrow> placeholder (b' :: 'a binding))"
  let ?ups = "filter (\<lambda>b'. \<exists>cur\<in>set (bindings s). bid cur = bid b' \<and> cur \<noteq> b')
                 (map (\<lambda>b. b\<lparr>placeholder := True\<rparr>) (getBindingsToShape s e))"
  have ups: "\<exists>cur0 \<in> set (bindings s). b' = cur0\<lparr>placeholder := True\<rparr>" if "b' \<in> set ?ups" for b'
    using that by (auto simp: getBindingsToShape_def)
  show "list_all2 ?R (bindings s) (bindings (onTranslateStart e s))"
    unfolding onTranslateStart_def bindings_updateBindings
  proof (rule fold_put_rel)
    fix b' cur
    assume b': "b' \<in> set ?ups" and cur: "cur \<in> set (bindings s) \<union> set ?ups" and eq: "bid cur = bid b'"
    from ups[OF b'] obtain cur0 where c0: "cur0 \<in> set (bindings s)" "b' = cur0\<lparr>placeholder := True\<rparr>"
      by blast
    from cur have "\<exists>cur1 \<in> set (bindings s). bid cur1 = bid cur \<and> toId cur1 = toId cur"
    proof
      assume "cur \<in> set (bindings s)" then show ?thesis by blast
    next
      assume "cur \<in> set ?ups"
      from ups[OF this] show ?thesis by auto
    qed
    then obtain cur1 where c1: "cur1 \<in> set (bindings s)" "bid cur1 = bid cur" "toId cur1 = toId cur"
      by blast
    have "cur1 = cur0" using ids_unique_inj[OF i c1(1) c0(1)] c1(2) eq c0(2) by simp
    then show "toId cur = toId b' \<and> (placeholder cur \<longrightarrow> placeholder b')"
      using c1(3) c0(2) by simp
  qed auto
qed

lemma length_filter_filter_le:
  "length (filter Q (filter R (filter P xs))) \<le> length (filter Q (filter R xs))"
  by (induction xs) auto

lemma committed_unique_deleteBindings:
  "committed_unique s \<Longrightarrow> committed_unique (deleteBindings bs s)"
  unfolding committed_unique_def getBindingsToShape_def bindings_deleteBindings
  by (meson le_trans length_filter_filter_le)

lemma no_bindings_to_after_delete:
  "getBindingsToShape (deleteBindings (getBindingsToShape s e) s) e = []"
  by (auto simp: getBindingsToShape_def filter_empty_conv)

lemma committed_unique_onTranslate:
  assumes i: "ids_unique s" and c: "committed_unique s"
  shows "committed_unique (onTranslate g e sh s)"
proof (cases rule: onTranslate_cases[of s sh g e])
  case detach
  then show ?thesis using c by (simp add: committed_unique_deleteBindings)
next
  case (keep c cont ex)
  then show ?thesis using c by simp
next
  case (update c' cont ex)
  have ex: "ex \<in> set (bindings s)" using find_own_Some[OF update(2)] by simp
  show ?thesis unfolding update(4)
  proof (rule committed_unique_rel[OF c])
    show "list_all2 (\<lambda>b b'. toId b = toId b' \<and> (placeholder b \<longrightarrow> placeholder b')) (bindings s)
       (bindings (updateBinding (ex\<lparr>placeholder := True,
             index := getBindingIndexForPosition g s e (c', cont) (sx sh + 50, sy sh + 50)\<rparr>) s))"
      unfolding bindings_updateBinding
    proof (rule list_all2_put_binding)
      fix cur assume cur: "cur \<in> set (bindings s)"
        and eq: "bid cur = bid (ex\<lparr>placeholder := True,
             index := getBindingIndexForPosition g s e (c', cont) (sx sh + 50, sy sh + 50)\<rparr>)"
      have "cur = ex" using ids_unique_inj[OF i cur ex] eq by simp
      then show "toId cur = toId (ex\<lparr>placeholder := True,
             index := getBindingIndexForPosition g s e (c', cont) (sx sh + 50, sy sh + 50)\<rparr>) \<and>
           (placeholder cur \<longrightarrow> placeholder (ex\<lparr>placeholder := True,
             index := getBindingIndexForPosition g s e (c', cont) (sx sh + 50, sy sh + 50)\<rparr>))"
        by simp
    qed simp
  qed
next
  case (create c' cont)
  show ?thesis unfolding create(3) using c
    by (simp add: committed_unique_def getBindingsToShape_def)
qed

lemma committed_unique_onTranslateEnd:
  assumes c: "committed_unique s"
  shows "committed_unique (onTranslateEnd g e sh s)"
proof (cases rule: onTranslateEnd_cases[of s sh g e])
  case none
  then show ?thesis using c by simp
next
  case (drop c' cont)
  let ?s1 = "deleteBindings (getBindingsToShape s e) s"
  have c1: "committed_unique ?s1" by (rule committed_unique_deleteBindings[OF c])
  have n: "filter (\<lambda>b. toId b = e) (bindings ?s1) = []"
    using no_bindings_to_after_delete[of s e] by (simp add: getBindingsToShape_def)
  show ?thesis unfolding drop(2) committed_unique_def
  proof
    fix e'
    show "length (filter (\<lambda>b. \<not> placeholder b)
              (getBindingsToShape (createBinding \<lparr>bid = createBindingId ?s1, fromId = c', toId = e,
                   index = getBindingIndexForPosition g s e (c', cont) (sx sh + 50, sy sh + 50),
                   placeholder = False\<rparr> ?s1) e')) \<le> 1"
    proof (cases "e' = e")
      case True
      show ?thesis unfolding True getBindingsToShape_def bindings_createBinding
        by (simp add: n)
    next
      case False
      show ?thesis using c1 False
        unfolding getBindingsToShape_def bindings_createBinding committed_unique_def
        by simp
    qed
  qed
qed

subsection \<open>Invariants of the reachable stores\<close>

lemma reachable_ids_unique:
  assumes "reachable g s0 s" and "ids_unique s0"
  shows "ids_unique s"
  using assms
proof (induction rule: reachable.induct)
  case initial
  then show ?case by simp
next
  case (moved s i sh px py)
  then show ?case by (simp add: ids_unique_def)
next
  case (drag_start s e sh)
  then show ?case by (simp add: ids_unique_onTranslateStart)
next
  case (drag_move s e sh)
  then show ?case by (simp add: ids_unique_onTranslate)
next
  case (drag_end s e sh)
  then show ?case by (simp add: ids_unique_onTranslateEnd)
qed

lemma reachable_pair_unique:
  assumes "reachable g s0 s" and "ids_unique s0" and "pair_unique s0"
  shows "pair_unique s"
  using assms
proof (induction rule: reachable.induct)
  case initial
  then show ?case by simp
next
  case (moved s i sh px py)
  then show ?case by (simp add: pair_unique_def)
next
  case (drag_start s e sh)
  then show ?case using reachable_ids_unique[of g s0 s] by (simp add: pair_unique_onTranslateStart)
next
  case (drag_move s e sh)
  then show ?case using reachable_ids_unique[of g s0 s] by (simp add: pair_unique_onTranslate)
next
  case (drag_end s e sh)
  then show ?case by (simp add: pair_unique_onTranslateEnd)
qed

lemma reachable_committed_unique:
  assumes "reachable g s0 s" and "ids_unique s0" and "committed_unique s0"
  shows "committed_unique s"
  using assms
proof (induction rule: reachable.induct)
  case initial
  then show ?case by simp
next
  case (moved s i sh px py)
  then show ?case by (simp add: committed_unique_def getBindingsToShape_def)
next
  case (drag_start s e sh)
  then show ?case using reachable_ids_unique[of g s0 s] by (simp add: committed_unique_onTranslateStart)
next
  case (drag_move s e sh)
  then show ?case using reachable_ids_unique[of g s0 s] by (simp add: committed_unique_onTranslate)
next
  case (drag_end s e sh)
  then show ?case by (simp add: committed_unique_onTranslateEnd)
qed

lemma reachable_all_sized:
  assumes "reachable g s0 s" and "ids_unique s0" and "all_sized s0"
  shows "all_sized s"
  using assms
proof (induction rule: reachable.induct)
  case initial
  then show ?case by simp
next
  case (moved s i sh px py)
  then show ?case by (simp add: all_sized_moved)
next
  case (drag_start s e sh)
  then show ?case using reachable_ids_unique[of g s0 s] by (simp add: all_sized_onTranslateStart)
next
  case (drag_move s e sh)
  then show ?case using reachable_ids_unique[of g s0 s] by (simp add: all_sized_onTranslate)
next
  case (drag_end s e sh)
  then show ?case by (simp add: all_sized_onTranslateEnd)
qed

subsection \<open>The sample stores\<close>

lemma carried_over_eval:
  "carried 424 224 = \<lparr>shapes = [(10, ContainerShape 200 200 148 148),
                                (20, ContainerShape 400 200 148 148),
                                (1, ElementShape 424 224 100 100 ''red'')],
                      bindings = [binding_a1\<lparr>placeholder := True\<rparr>], shape_writes = [1], pending = []\<rparr>"
  by code_simp

lemma carried_away_eval:
  "carried 1000 1000 = \<lparr>shapes = [(10, ContainerShape 200 200 148 148),
                                (20, ContainerShape 400 200 148 148),
                                (1, ElementShape 1000 1000 100 100 ''red'')],
                      bindings = [binding_a1\<lparr>placeholder := True\<rparr>], shape_writes = [1], pending = []\<rparr>"
  by code_simp

lemma reachable_carried: "reachable between_rat two_containers (carried px py)"
proof -
  have 1: "getShape two_containers 1 = Some (ElementShape 224 224 100 100 ''red'')"
    by (simp add: getShape_def two_containers_def)
  have r1: "reachable between_rat two_containers (onTranslateStart 1 two_containers)"
    by (rule reachable.drag_start[OF reachable.initial 1]) simp
  have 2: "getShape (onTranslateStart 1 two_containers) 1 = Some (ElementShape 224 224 100 100 ''red'')"
    by code_simp
  show ?thesis unfolding carried_def by (rule reachable.moved[OF r1 2])
qed

lemma reachable_dragged_across: "reachable between_rat two_containers dragged_across"
proof -
  have 3: "getShape (carried 424 224) 1 = Some (ElementShape 424 224 100 100 ''red'')"
    by (simp add: carried_over_eval carried_away_eval getShape_def)
  show ?thesis unfolding dragged_across_def
    by (rule reachable.drag_move[OF reachable_carried 3]) simp
qed

lemma two_containers_wf:
  "ids_unique two_containers" "pair_unique two_containers" "committed_unique two_containers"
  "keys_unique two_containers" "all_sized two_containers"
  by (auto simp: ids_unique_def pair_unique_def committed_unique_def keys_unique_def all_sized_def
      sized_def two_containers_def binding_a1_def getBindingsToShape_def getBindingsFromShape_def getShape_def)



subsection \<open>Fresh keys\<close>

lemma clamp_upper: "clamp x 0 hi \<le> max 0 x"
  by (simp add: clamp_def max_def min_def)

lemma slot_le_members:
  assumes "ax \<le> cx + (24 + of_nat m * 100 + (of_nat m - 1) * 24 + 24)"
  shows "clamp (round ((ax - cx - 24) / 124 :: rat)) 0 hi \<le> int m"
proof -
  have "(ax - cx - 24) / 124 \<le> of_int (int m)"
    using assms by (simp add: field_simps)
  then have "round ((ax - cx - 24) / 124) \<le> round (of_int (int m) :: rat)"
    by (rule round_mono)
  then have "round ((ax - cx - 24) / 124) \<le> int m" by simp
  then show ?thesis using clamp_upper[of "round ((ax - cx - 24) / 124)" hi] by simp
qed

lemma new_key_fresh:
  fixes g :: "('k::linorder) option \<Rightarrow> 'k option \<Rightarrow> 'k"
  assumes ok: "allocator_ok g"
    and ku: "distinct (map index (getBindingsFromShape s c))"
    and sz: "getBindingsFromShape s c \<noteq> [] \<longrightarrow>
               cw = 24 + of_nat (length (getBindingsFromShape s c)) * 100
                    + (of_nat (length (getBindingsFromShape s c)) - 1) * 24 + 24"
    and hit: "ax \<le> cx + cw"
    and b: "b \<in> set (getBindingsFromShape s c)" and be: "toId b \<noteq> e"
  shows "index b \<noteq> getBindingIndexForPosition g s e (c, ContainerShape cx cy cw ch) (ax, ay)"
proof -
  define all where "all = sort_key index (getBindingsFromShape s c)"
  define n where "n = length (filter (\<lambda>b. toId b \<noteq> e) all)"
  define slot where "slot = clamp (round ((ax - sx (ContainerShape cx cy cw ch) - 24) / 124)) 0 (int n + 1)"
  define belowSib where "belowSib = nth_opt all (slot - 1)"
  define aboveSib where "aboveSib = nth_opt all slot"
  define k where "k = getBindingIndexForPosition g s e (c, ContainerShape cx cy cw ch) (ax, ay)"
  have kk: "k = (if map_option toId belowSib = Some e then index (the belowSib)
         else if map_option toId aboveSib = Some e then index (the aboveSib)
         else g (map_option index belowSib) (map_option index aboveSib))"
    unfolding k_def
    by (rule getBindingIndexForPosition_unfold[OF all_def n_def slot_def belowSib_def aboveSib_def])
  have st: "sorted_wrt (<) (map index all)" unfolding all_def by (rule sorted_all[OF ku])
  have len: "length all = length (getBindingsFromShape s c)" by (simp add: all_def)
  have "b \<in> set all" using b by (simp add: all_def)
  then obtain j where j: "j < length all" "all ! j = b" by (auto simp: in_set_conv_nth)
  have ne: "getBindingsFromShape s c \<noteq> []" using b by auto
  have slot_le: "slot \<le> int (length all)"
    unfolding slot_def len using slot_le_members[of ax cx "length (getBindingsFromShape s c)"] hit sz ne
    by simp
  have slot_ge: "0 \<le> slot" unfolding slot_def clamp_def by simp
  have lt: "i < i' \<Longrightarrow> i' < length all \<Longrightarrow> index (all ! i) < index (all ! i')" for i i'
    using sorted_wrt_nth_less[OF st, of i i'] by simp
  have neq: "i \<noteq> j \<Longrightarrow> i < length all \<Longrightarrow> index (all ! i) \<noteq> index b" for i
    using lt[of i j] lt[of j i] j by (cases "i < j") auto
  show ?thesis
  proof (cases "map_option toId belowSib = Some e")
    case True
    then obtain bo where bo: "nth_opt all (slot - 1) = Some bo" "toId bo = e"
      by (auto simp: belowSib_def)
    note p = nth_opt_Some[OF bo(1)]
    have "nat (slot - 1) \<noteq> j" using p bo(2) j be by auto
    then have "index bo \<noteq> index b" using neq[of "nat (slot - 1)"] p by simp
    moreover have "k = index bo" using True bo by (simp add: kk belowSib_def)
    ultimately show ?thesis by (simp add: k_def)
  next
    case nb: False
    show ?thesis
    proof (cases "map_option toId aboveSib = Some e")
      case True
      then obtain ao where ao: "nth_opt all slot = Some ao" "toId ao = e"
        by (auto simp: aboveSib_def)
      note p = nth_opt_Some[OF ao(1)]
      have "nat slot \<noteq> j" using p ao(2) j be by auto
      then have "index ao \<noteq> index b" using neq[of "nat slot"] p by simp
      moreover have "k = index ao"
        using ao by (simp only: kk if_not_P[OF nb] if_P[OF True]) (simp add: aboveSib_def)
      ultimately show ?thesis by (simp add: k_def)
    next
      case na: False
      have kg: "k = g (map_option index belowSib) (map_option index aboveSib)"
        by (simp only: kk if_not_P[OF nb] if_not_P[OF na])
      have ab: "(\<forall>b'. belowSib = Some b' \<longrightarrow> index b' < k) \<and> (\<forall>a. aboveSib = Some a \<longrightarrow> k < index a)"
        unfolding kg belowSib_def aboveSib_def by (rule allocator_between[OF ok st])
      show ?thesis
      proof (cases "int j < slot")
        case True
        then have r: "0 \<le> slot - 1" "slot - 1 < int (length all)" using slot_le by auto
        then have bs: "belowSib = Some (all ! nat (slot - 1))" by (simp add: belowSib_def nth_opt_def)
        then have "index (all ! nat (slot - 1)) < k" using ab by simp
        moreover have "index (all ! j) \<le> index (all ! nat (slot - 1))"
        proof (cases "j = nat (slot - 1)")
          case True then show ?thesis by simp
        next
          case False
          then have "j < nat (slot - 1)" using True r by auto
          moreover have "nat (slot - 1) < length all" using r by linarith
          ultimately have "index (all ! j) < index (all ! nat (slot - 1))" by (rule lt)
          then show ?thesis by simp
        qed
        ultimately show ?thesis using j by (auto simp: k_def)
      next
        case False
        then have r: "slot \<le> int j" by simp
        then have as: "aboveSib = Some (all ! nat slot)"
          using j slot_ge by (simp add: aboveSib_def nth_opt_def)
        then have "k < index (all ! nat slot)" using ab by simp
        moreover have "index (all ! nat slot) \<le> index (all ! j)"
        proof (cases "j = nat slot")
          case True then show ?thesis by simp
        next
          case False
          then have "nat slot < j" using r slot_ge by auto
          then have "index (all ! nat slot) < index (all ! j)" using j(1) by (rule lt)
          then show ?thesis by simp
        qed
        ultimately show ?thesis using j by (auto simp: k_def)
      qed
    qed
  qed
qed

lemma target_new_key_fresh:
  fixes g :: "('k::linorder) option \<Rightarrow> 'k option \<Rightarrow> 'k"
  assumes ok: "allocator_ok g" and ku: "keys_unique s" and sz: "all_sized s"
    and t: "getTargetContainer s sh (ax, ay) = Some (c, cont)"
    and b: "b \<in> set (bindings s)" "fromId b = c" "toId b \<noteq> e"
  shows "index b \<noteq> getBindingIndexForPosition g s e (c, cont) (ax, ay)"
proof -
  from getTargetContainer_Some[OF t] obtain cx cy cw ch where
    g: "getShape s c = Some cont" and h: "hitInside cont (ax, ay)"
    and c: "cont = ContainerShape cx cy cw ch" by blast
  have 1: "distinct (map index (getBindingsFromShape s c))" using ku by (simp add: keys_unique_def)
  have "sized s c" using sz by (simp add: all_sized_def)
  then have 2: "getBindingsFromShape s c \<noteq> [] \<longrightarrow>
               cw = 24 + of_nat (length (getBindingsFromShape s c)) * 100
                    + (of_nat (length (getBindingsFromShape s c)) - 1) * 24 + 24"
    using g c by (simp add: sized_def)
  have 3: "ax \<le> cx + cw" using h c by (simp add: hitInside_def)
  have 4: "b \<in> set (getBindingsFromShape s c)" using b by (simp add: getBindingsFromShape_def)
  show ?thesis unfolding c by (rule new_key_fresh[OF ok 1 2 3 4 b(3)])
qed

lemma keys_unique_deleteBindings:
  assumes "keys_unique s"
  shows "keys_unique (deleteBindings bs s)"
  unfolding keys_unique_def getBindingsFromShape_def bindings_deleteBindings
proof
  fix c
  have "filter (\<lambda>b. fromId b = c) (filter P xs) = filter P (filter (\<lambda>b. fromId b = c) xs)"
    for P and xs :: "'a binding list"
    by (induction xs) auto
  then show "distinct (map index (filter (\<lambda>b. fromId b = c)
                (filter (\<lambda>b. bid b \<notin> bid ` set bs) (bindings s))))"
    using assms by (simp only: keys_unique_def getBindingsFromShape_def distinct_map_filter)
qed

lemma keys_unique_onTranslateStart:
  assumes "ids_unique s" and "keys_unique s"
  shows "keys_unique (onTranslateStart e s)"
  unfolding keys_unique_def getBindingsFromShape_def
proof
  fix c
  have "map index (filter (\<lambda>b. fromId b = c) (bindings (onTranslateStart e s)))
      = map index (filter (\<lambda>b. fromId b = c) (bindings s))"
    by (rule map_filter_proj[OF onTranslateStart_proj[OF assms(1)],
          where P'="\<lambda>(i, f, t, k). f = c" and f'="\<lambda>(i, f, t, k). k"]) simp_all
  then show "distinct (map index (filter (\<lambda>b. fromId b = c) (bindings (onTranslateStart e s))))"
    using assms(2) by (simp add: keys_unique_def getBindingsFromShape_def)
qed

lemma keys_unique_createBinding:
  assumes "keys_unique s"
    and "\<And>b'. b' \<in> set (bindings s) \<Longrightarrow> fromId b' = fromId b \<Longrightarrow> index b' \<noteq> index b"
  shows "keys_unique (createBinding b s)"
  unfolding keys_unique_def getBindingsFromShape_def
proof
  fix c
  show "distinct (map index (filter (\<lambda>b. fromId b = c) (bindings (createBinding b s))))"
  proof (cases "fromId b = c")
    case True
    have "index b \<notin> index ` set (filter (\<lambda>b. fromId b = c) (bindings s))"
      using assms(2) True by force
    then show ?thesis using assms(1) True
      by (simp add: keys_unique_def getBindingsFromShape_def)
  next
    case False
    then show ?thesis using assms(1)
      by (simp add: keys_unique_def getBindingsFromShape_def)
  qed
qed

lemma pair_unique_inj:
  "pair_unique s \<Longrightarrow> a \<in> set (bindings s) \<Longrightarrow> b \<in> set (bindings s) \<Longrightarrow>
   fromId a = fromId b \<Longrightarrow> toId a = toId b \<Longrightarrow> a = b"
  by (auto simp: pair_unique_def distinct_map dest: inj_onD)

lemma keys_unique_inj:
  "keys_unique s \<Longrightarrow> a \<in> set (bindings s) \<Longrightarrow> b \<in> set (bindings s) \<Longrightarrow>
   fromId a = fromId b \<Longrightarrow> index a = index b \<Longrightarrow> a = b"
proof -
  assume k: "keys_unique s" and a: "a \<in> set (bindings s)" and b: "b \<in> set (bindings s)"
    and f: "fromId a = fromId b" and i: "index a = index b"
  have "inj_on index (set (getBindingsFromShape s (fromId b)))"
    using k by (simp add: keys_unique_def distinct_map)
  moreover have "a \<in> set (getBindingsFromShape s (fromId b))" "b \<in> set (getBindingsFromShape s (fromId b))"
    using a b f by (simp_all add: getBindingsFromShape_def)
  ultimately show "a = b" using i by (auto dest: inj_onD)
qed

lemma keys_unique_put:
  assumes iu: "ids_unique s" and pu: "pair_unique s" and ku: "keys_unique s"
    and ex: "ex \<in> set (bindings s)"
    and fresh: "\<And>b. b \<in> set (bindings s) \<Longrightarrow> fromId b = fromId ex \<Longrightarrow> toId b \<noteq> toId ex \<Longrightarrow> index b \<noteq> k"
  shows "keys_unique (updateBinding (ex\<lparr>placeholder := True, index := k\<rparr>) s)"
  unfolding keys_unique_def getBindingsFromShape_def bindings_updateBinding
proof
  fix c
  let ?b' = "ex\<lparr>placeholder := True, index := k\<rparr>"
  let ?h = "\<lambda>b. if bid b = bid ?b' then ?b' else b"
  let ?xs = "filter (\<lambda>b. fromId b = c) (bindings s)"
  have same: "b \<in> set (bindings s) \<Longrightarrow> bid b = bid ex \<Longrightarrow> b = ex" for b
    using ids_unique_inj[OF iu _ ex] by simp
  have f: "filter (\<lambda>b. fromId b = c) (put_binding ?b' (bindings s)) = map ?h ?xs"
    unfolding put_binding_def filter_map comp_def
    by (rule arg_cong[where f="map ?h"], rule filter_cong) (auto dest: same)
  have d: "distinct ?xs" using iu by (simp add: ids_unique_def distinct_map)
  have inj: "inj_on (\<lambda>b. index (?h b)) (set ?xs)"
  proof (rule inj_onI)
    fix x y assume x: "x \<in> set ?xs" and y: "y \<in> set ?xs" and eq: "index (?h x) = index (?h y)"
    have xs: "x \<in> set (bindings s)" "fromId x = c" and ys: "y \<in> set (bindings s)" "fromId y = c"
      using x y by simp_all
    show "x = y"
    proof (cases "bid x = bid ex")
      case True
      note xe = same[OF xs(1) True]
      show ?thesis
      proof (cases "bid y = bid ex")
        case True
        then show ?thesis using xe same[OF ys(1) True] by simp
      next
        case False
        then have "y \<noteq> ex" by auto
        then have "toId y \<noteq> toId ex" using pair_unique_inj[OF pu ys(1) ex] ys(2) xs(2) xe by auto
        then have "index y \<noteq> k" using fresh[OF ys(1)] ys(2) xs(2) xe by simp
        then show ?thesis using eq True False by simp
      qed
    next
      case False
      show ?thesis
      proof (cases "bid y = bid ex")
        case True
        note ye = same[OF ys(1) True]
        have "x \<noteq> ex" using False by auto
        then have "toId x \<noteq> toId ex" using pair_unique_inj[OF pu xs(1) ex] ys(2) xs(2) ye by auto
        then have "index x \<noteq> k" using fresh[OF xs(1)] ys(2) xs(2) ye by simp
        then show ?thesis using eq True False by simp
      next
        case ny: False
        then have "index x = index y" using eq False by simp
        then show ?thesis using keys_unique_inj[OF ku xs(1) ys(1)] xs(2) ys(2) by simp
      qed
    qed
  qed
  show "distinct (map index (filter (\<lambda>b. fromId b = c) (put_binding ?b' (bindings s))))"
    unfolding f map_map comp_def using d inj by (simp add: distinct_map)
qed

lemma keys_unique_onTranslate:
  fixes g :: "('k::linorder) option \<Rightarrow> 'k option \<Rightarrow> 'k"
  assumes ok: "allocator_ok g" and iu: "ids_unique s" and pu: "pair_unique s"
    and sz: "all_sized s" and ku: "keys_unique s"
  shows "keys_unique (onTranslate g e sh s)"
proof (cases rule: onTranslate_cases[of s sh g e])
  case detach
  then show ?thesis using ku by (simp add: keys_unique_deleteBindings)
next
  case (keep c cont ex)
  then show ?thesis using ku by simp
next
  case (update c cont ex)
  note ex = find_own_Some[OF update(2)]
  show ?thesis unfolding update(4)
  proof (rule keys_unique_put[OF iu pu ku])
    show "ex \<in> set (bindings s)" using ex by simp
  next
    fix b assume "b \<in> set (bindings s)" "fromId b = fromId ex" "toId b \<noteq> toId ex"
    then show "index b \<noteq> getBindingIndexForPosition g s e (c, cont) (sx sh + 50, sy sh + 50)"
      using target_new_key_fresh[OF ok ku sz update(1), of b e] ex by simp
  qed
next
  case (create c cont)
  show ?thesis unfolding create(3)
  proof (rule keys_unique_createBinding[OF ku])
    fix b' assume b': "b' \<in> set (bindings s)"
      and f: "fromId b' = fromId \<lparr>bid = createBindingId s, fromId = c, toId = e,
                 index = getBindingIndexForPosition g s e (c, cont) (sx sh + 50, sy sh + 50),
                 placeholder = True\<rparr>"
    have "toId b' \<noteq> e" using find_own_None[OF create(2) b'] f by simp
    then show "index b' \<noteq> index \<lparr>bid = createBindingId s, fromId = c, toId = e,
                 index = getBindingIndexForPosition g s e (c, cont) (sx sh + 50, sy sh + 50),
                 placeholder = True\<rparr>"
      using target_new_key_fresh[OF ok ku sz create(1) b', of e] f by simp
  qed
qed

lemma keys_unique_onTranslateEnd:
  fixes g :: "('k::linorder) option \<Rightarrow> 'k option \<Rightarrow> 'k"
  assumes ok: "allocator_ok g" and sz: "all_sized s" and ku: "keys_unique s"
  shows "keys_unique (onTranslateEnd g e sh s)"
proof (cases rule: onTranslateEnd_cases[of s sh g e])
  case none
  then show ?thesis using ku by simp
next
  case (drop c cont)
  show ?thesis unfolding drop(2)
  proof (rule keys_unique_createBinding[OF keys_unique_deleteBindings[OF ku]])
    fix b' assume b': "b' \<in> set (bindings (deleteBindings (getBindingsToShape s e) s))"
      and f: "fromId b' = fromId \<lparr>bid = createBindingId (deleteBindings (getBindingsToShape s e) s),
                 fromId = c, toId = e,
                 index = getBindingIndexForPosition g s e (c, cont) (sx sh + 50, sy sh + 50),
                 placeholder = False\<rparr>"
    from b' have m: "b' \<in> set (bindings s)" and "bid b' \<notin> bid ` set (getBindingsToShape s e)"
      by simp_all
    then have "toId b' \<noteq> e" by (auto simp: getBindingsToShape_def)
    then show "index b' \<noteq> index \<lparr>bid = createBindingId (deleteBindings (getBindingsToShape s e) s),
                 fromId = c, toId = e,
                 index = getBindingIndexForPosition g s e (c, cont) (sx sh + 50, sy sh + 50),
                 placeholder = False\<rparr>"
      using target_new_key_fresh[OF ok ku sz drop(1) m, of e] f by simp
  qed
qed

lemma reachable_keys_unique:
  fixes g :: "('k::linorder) option \<Rightarrow> 'k option \<Rightarrow> 'k"
  assumes "reachable g s0 s" and "allocator_ok g" and "ids_unique s0" and "pair_unique s0"
    and "all_sized s0" and "keys_unique s0"
  shows "keys_unique s"
  using assms
proof (induction rule: reachable.induct)
  case initial
  then show ?case by simp
next
  case (moved s i sh px py)
  then show ?case by (simp add: keys_unique_def getBindingsFromShape_def)
next
  case (drag_start s e sh)
  then show ?case using reachable_ids_unique[of g s0 s] by (simp add: keys_unique_onTranslateStart)
next
  case (drag_move s e sh)
  then show ?case
    using reachable_ids_unique[of g s0 s] reachable_pair_unique[of g s0 s] reachable_all_sized[of g s0 s]
    by (simp add: keys_unique_onTranslate)
next
  case (drag_end s e sh)
  then show ?case
    using reachable_all_sized[of g s0 s]
    by (simp add: keys_unique_onTranslateEnd)
qed

lemma settled_wf:
  "ids_unique settled" "pair_unique settled" "all_sized settled" "keys_unique settled"
  by (auto simp: ids_unique_def pair_unique_def keys_unique_def all_sized_def
      sized_def settled_def binding1_def binding2_def getBindingsFromShape_def getShape_def)

lemma reachable_inserted:
  "reachable between_rat settled (onTranslate between_rat 3 (ElementShape 300 230 100 100 ''grey'') settled)"
proof -
  have 3: "getShape settled 3 = Some (ElementShape 300 230 100 100 ''grey'')"
    by (simp add: getShape_def settled_def)
  show ?thesis by (rule reachable.drag_move[OF reachable.initial 3]) simp
qed

lemma inserted_keys:
  "map index (getBindingsFromShape
      (onTranslate between_rat 3 (ElementShape 300 230 100 100 ''grey'') settled) 10) = [2, 1, 3 / 2]"
  by code_simp

subsection \<open>Where the dispatch leaves elements and containers\<close>




lemma slotted_pending [simp]: "slotted (s\<lparr>pending := q\<rparr>) e = slotted s e"
  by (simp add: slotted_def)
































section \<open>Binding capability\<close>

text \<open>
  C10: each of the two capability predicates accepts a triple exactly when it is
  (container, element, layout); so the framework's check \<open>canBindShapes\<close> admits a layout
  binding only from a container shape to an element shape.
\<close>

theorem canBind_iff:
  "(ContainerShapeUtil_canBind f t b \<and> ElementShapeUtil_canBind f t b)
     = (f = ''container'' \<and> t = ''element'' \<and> b = ''layout'')
   \<and> ContainerShapeUtil_canBind f t b = (f = ''container'' \<and> t = ''element'' \<and> b = ''layout'')
   \<and> ElementShapeUtil_canBind f t b = (f = ''container'' \<and> t = ''element'' \<and> b = ''layout'')
   \<and> canBindShapes fromShape toShape ''layout''
       = (shape_type fromShape = ''container'' \<and> shape_type toShape = ''element'')"
  by (cases fromShape; cases toShape)
     (auto simp: ContainerShapeUtil_canBind_def ElementShapeUtil_canBind_def
        canBindShapes_def shapeUtil_canBind_def)

section \<open>Reflow geometry\<close>

text \<open>
  C1: for a container with \<open>n \<ge> 1\<close> layout bindings (at most one per element), after
  \<open>updateElementsForContainer\<close> the container is \<open>24 + n * 100 + (n - 1) * 24 + 24\<close> wide and
  \<open>24 + 100 + 24\<close> high, and every member other than a placeholder-flagged trigger, at
  position \<open>i\<close> of the bindings sorted by index, sits at offset \<open>(24 + i * 124, 24)\<close> from
  the container's origin.
\<close>

theorem reflow_geometry:
  assumes "getShape s (fromId t) = Some (ContainerShape cx cy cw ch)"
    and "bs = sort_key index (getBindingsFromShape s (fromId t))"
    and "bs \<noteq> []"
    and "distinct (map toId bs)"
  shows "getShape (updateElementsForContainer t s) (fromId t)
           = Some (ContainerShape cx cy
                (24 + of_nat (length bs) * 100 + (of_nat (length bs) - 1) * 24 + 24) (24 + 100 + 24))
       \<and> (\<forall>i < length bs. \<not> (toId (bs ! i) = toId t \<and> placeholder t) \<longrightarrow>
             (\<forall>ex ey ew eh ec. getShape s (toId (bs ! i)) = Some (ElementShape ex ey ew eh ec) \<longrightarrow>
                getShape (updateElementsForContainer t s) (toId (bs ! i))
                  = Some (ElementShape (cx + (24 + of_nat i * 124)) (cy + 24) ew eh ec)))"
  using reflow_container[OF assms(1,2,3)] reflow_member[OF assms(1,2,4)]
  by auto

theorem reflow_geometry_witness:
  "getShape (updateElementsForContainer binding2 unsettled) 10 = Some (ContainerShape 200 200 272 148)
   \<and> getShape (updateElementsForContainer binding2 unsettled) 1 = Some (ElementShape 224 224 100 100 ''red'')
   \<and> getShape (updateElementsForContainer binding2 unsettled) 2 = Some (ElementShape 348 224 100 100 ''orange'')"
proof -
  have c: "getShape unsettled (fromId binding2) = Some (ContainerShape 200 200 668 148)"
    by (simp add: getShape_def unsettled_def binding2_def)
  have bs: "[binding1, binding2] = sort_key index (getBindingsFromShape unsettled (fromId binding2))"
    by (simp add: getBindingsFromShape_def unsettled_def binding1_def binding2_def)
  have d: "distinct (map toId [binding1, binding2])" by (simp add: binding1_def binding2_def)
  have e1: "getShape unsettled 1 = Some (ElementShape 0 0 100 100 ''red'')"
    by (simp add: getShape_def unsettled_def)
  have e2: "getShape unsettled 2 = Some (ElementShape 500 500 100 100 ''orange'')"
    by (simp add: getShape_def unsettled_def)
  note g = reflow_geometry[OF c bs _ d]
  have g0: "getShape (updateElementsForContainer binding2 unsettled) 10 = Some (ContainerShape 200 200 272 148)"
    using g by (simp add: binding2_def)
  have g1: "getShape (updateElementsForContainer binding2 unsettled) 1 = Some (ElementShape 224 224 100 100 ''red'')"
    using g[THEN conjunct2, rule_format, of 0] e1 by (simp add: binding1_def binding2_def)
  have g2: "getShape (updateElementsForContainer binding2 unsettled) 2 = Some (ElementShape 348 224 100 100 ''orange'')"
    using g[THEN conjunct2, rule_format, of 1] e2 by (simp add: binding1_def binding2_def)
  show ?thesis using g0 g1 g2 by simp
qed

text \<open>
  C7: in a reflow the loop body leaves a member alone, whatever the store, exactly when
  its binding is the triggering one and the trigger is a placeholder; when the reflow
  returns, that member has the record it had and every other member is at its slot.  The
  writes of the reflow raise events of their own, which the framework dispatches next:
  if the reflow resized the container, the reflow runs again, once for every binding of
  the container as trigger.  So, when the dispatch is over, every member that was not
  skipped is at its slot still, and the skipped member has kept its position exactly if
  the container had its size already or holds no other member; else a reflow with
  another trigger has moved it to its slot, too.  The trigger is either one of the
  container's bindings or, after a delete, refers to an element no longer bound there.
\<close>

theorem reflow_skips_only_placeholder_trigger:
  assumes c: "getShape s (fromId t) = Some (ContainerShape cx cy cw ch)"
    and bs: "bs = sort_key index (getBindingsFromShape s (fromId t))"
    and d: "distinct (map toId bs)"
    and tr: "t \<in> set bs \<or> toId t \<notin> toId ` set bs"
    and k: "k < length bs"
    and e: "getShape s (toId (bs ! k)) = Some (ElementShape ex ey ew eh ec)"
    and q: "pending s = []"
  shows "((\<forall>s0 :: ('k::linorder) editor. place_member t (ContainerShape cx cy cw ch) k (bs ! k) s0 = s0)
            = (bs ! k = t \<and> placeholder t))
       \<and> getShape (updateElementsForContainer t s) (toId (bs ! k))
           = (if bs ! k = t \<and> placeholder t then Some (ElementShape ex ey ew eh ec)
              else Some (ElementShape (cx + (24 + of_nat k * 124)) (cy + 24) ew eh ec))
       \<and> getShape (flush (Suc n) (updateElementsForContainer t s)) (toId (bs ! k))
           = (if bs ! k = t \<and> placeholder t
                 \<and> ((cw = 24 + of_nat (length bs) * 100 + (of_nat (length bs) - 1) * 24 + 24
                      \<and> ch = 148) \<or> length bs = 1)
              then Some (ElementShape ex ey ew eh ec)
              else Some (ElementShape (cx + (24 + of_nat k * 124)) (cy + 24) ew eh ec))"
proof -
  have mem: "bs ! k \<in> set bs" using k by simp
  have inj: "inj_on toId (set bs)" using d by (simp add: distinct_map)
  have eq: "(toId t = toId (bs ! k)) = (bs ! k = t)"
  proof (cases "t \<in> set bs")
    case True
    then show ?thesis using inj mem by (auto dest: inj_onD)
  next
    case False
    then have "toId t \<notin> toId ` set bs" using tr by simp
    then show ?thesis using mem False by auto
  qed
  have 1: "(\<forall>s0 :: 'k editor. place_member t (ContainerShape cx cy cw ch) k (bs ! k) s0 = s0)
            = (bs ! k = t \<and> placeholder t)"
    using place_member_skip_iff[of t "ContainerShape cx cy cw ch" k "bs ! k"] by (simp add: eq)
  have 2: "getShape (updateElementsForContainer t s) (toId (bs ! k))
           = (if bs ! k = t \<and> placeholder t then Some (ElementShape ex ey ew eh ec)
              else Some (ElementShape (cx + (24 + of_nat k * 124)) (cy + 24) ew eh ec))"
    using reflow_member[OF c bs d k e] by (simp add: eq)
  note 3 = dispatch_after_reflow[OF c bs d tr k e q, of n]
  show ?thesis using 1 2 3 by blast
qed

theorem reflow_skips_only_placeholder_trigger_witness:
  "getShape (updateElementsForContainer binding2_dragged dragging) 1 = Some (ElementShape 224 224 100 100 ''red'')
   \<and> getShape (updateElementsForContainer binding2_dragged dragging) 2 = Some (ElementShape 500 500 100 100 ''orange'')
   \<and> getShape (flush 100 (updateElementsForContainer binding2_dragged dragging)) 1
       = Some (ElementShape 224 224 100 100 ''red'')
   \<and> getShape (flush 100 (updateElementsForContainer binding2_dragged dragging)) 2
       = Some (ElementShape 348 224 100 100 ''orange'')
   \<and> getShape (flush 100 (updateElementsForContainer binding2_dragged dragging_sized)) 2
       = Some (ElementShape 500 500 100 100 ''orange'')"
proof -
  let ?bs = "[binding1, binding2_dragged]"
  have c: "getShape dragging (fromId binding2_dragged) = Some (ContainerShape 200 200 668 148)"
    by (simp add: getShape_def dragging_def binding2_dragged_def)
  have bs: "?bs = sort_key index (getBindingsFromShape dragging (fromId binding2_dragged))"
    by (simp add: getBindingsFromShape_def dragging_def binding1_def binding2_dragged_def)
  have d: "distinct (map toId ?bs)" by (simp add: binding1_def binding2_dragged_def)
  have tr: "binding2_dragged \<in> set ?bs \<or> toId binding2_dragged \<notin> toId ` set ?bs" by simp
  have e1: "getShape dragging (toId (?bs ! 0)) = Some (ElementShape 0 0 100 100 ''red'')"
    by (simp add: getShape_def dragging_def binding1_def)
  have e2: "getShape dragging (toId (?bs ! 1)) = Some (ElementShape 500 500 100 100 ''orange'')"
    by (simp add: getShape_def dragging_def binding2_dragged_def)
  have q: "pending dragging = []" by (simp add: dragging_def)
  have ne: "binding1 \<noteq> binding2_dragged" by (simp add: binding1_def binding2_dragged_def)
  have c': "getShape dragging_sized (fromId binding2_dragged) = Some (ContainerShape 200 200 272 148)"
    by (simp add: getShape_def dragging_sized_def binding2_dragged_def)
  have bs': "?bs = sort_key index (getBindingsFromShape dragging_sized (fromId binding2_dragged))"
    by (simp add: getBindingsFromShape_def dragging_sized_def binding1_def binding2_dragged_def)
  have e2': "getShape dragging_sized (toId (?bs ! 1)) = Some (ElementShape 500 500 100 100 ''orange'')"
    by (simp add: getShape_def dragging_sized_def binding2_dragged_def)
  have q': "pending dragging_sized = []" by (simp add: dragging_sized_def)
  note m1 = reflow_skips_only_placeholder_trigger[OF c bs d tr _ e1 q, of 99]
  note m2 = reflow_skips_only_placeholder_trigger[OF c bs d tr _ e2 q, of 99]
  note m3 = reflow_skips_only_placeholder_trigger[OF c' bs' d tr _ e2' q', of 99]
  have g1: "getShape (updateElementsForContainer binding2_dragged dragging) 1 = Some (ElementShape 224 224 100 100 ''red'')"
    and f1: "getShape (flush 100 (updateElementsForContainer binding2_dragged dragging)) 1
       = Some (ElementShape 224 224 100 100 ''red'')"
    using m1 ne by (simp_all add: binding1_def del: flush.simps)
  have g2: "getShape (updateElementsForContainer binding2_dragged dragging) 2 = Some (ElementShape 500 500 100 100 ''orange'')"
    and f2: "getShape (flush 100 (updateElementsForContainer binding2_dragged dragging)) 2
       = Some (ElementShape 348 224 100 100 ''orange'')"
    using m2 by (simp_all add: binding2_dragged_def del: flush.simps)
  have f3: "getShape (flush 100 (updateElementsForContainer binding2_dragged dragging_sized)) 2
       = Some (ElementShape 500 500 100 100 ''orange'')"
    using m3 by (simp add: binding2_dragged_def del: flush.simps)
  show ?thesis using g1 g2 f1 f2 f3 by simp
qed

text \<open>
  C8: running the reflow a second time with the same trigger and no binding change in
  between returns the very same store: same shapes, same container size, and no further
  entry in the log of shape writes.
\<close>

theorem reflow_idempotent:
  assumes "distinct (map toId (getBindingsFromShape s (fromId t)))"
  shows "updateElementsForContainer t (updateElementsForContainer t s) = updateElementsForContainer t s
       \<and> shape_writes (updateElementsForContainer t (updateElementsForContainer t s))
           = shape_writes (updateElementsForContainer t s)"
  using reflow_idem_aux[OF assms] by simp

theorem reflow_idempotent_witness:
  "updateElementsForContainer binding2 (updateElementsForContainer binding2 unsettled) = updateElementsForContainer binding2 unsettled
   \<and> shape_writes (updateElementsForContainer binding2 (updateElementsForContainer binding2 unsettled)) = [10, 2, 1]"
proof -
  have d: "distinct (map toId (getBindingsFromShape unsettled (fromId binding2)))"
    by (simp add: getBindingsFromShape_def unsettled_def binding1_def binding2_def)
  have w: "shape_writes (updateElementsForContainer binding2 unsettled) = [10, 2, 1]"
    by (simp add: updateElementsForContainer_def getShape_def getBindingsFromShape_def unsettled_def
           binding1_def binding2_def place_member_def updateShape_def CONTAINER_PADDING_def Let_def)
  show ?thesis using reflow_idempotent[OF d] w by simp
qed

section \<open>Ordinal slot computation\<close>

text \<open>
  C2: \<open>getBindingIndexForPosition\<close> rounds \<open>(anchorX - containerX - 24) / 124\<close> and clamps
  it to \<open>[0, n + 1]\<close>, \<open>n\<close> counting the container's bindings to other elements; the
  neighbours are read at positions \<open>slot - 1\<close> and \<open>slot\<close> of the unfiltered sorted list;
  the key of a neighbour that is the element's own binding is reused, otherwise the
  allocated key lies strictly between the keys of the neighbours that exist.  The
  allocator meets its contract and the container's keys are pairwise distinct.
\<close>

theorem binding_index_for_position:
  assumes ok: "allocator_ok g"
    and d: "distinct (map index (getBindingsFromShape s c))"
    and all: "all = sort_key index (getBindingsFromShape s c)"
    and n: "n = length (filter (\<lambda>b. toId b \<noteq> e) all)"
    and slot: "slot = clamp (round ((ax - sx cont - 24) / 124)) 0 (int n + 1)"
    and belowSib: "belowSib = nth_opt all (slot - 1)"
    and aboveSib: "aboveSib = nth_opt all slot"
    and k: "k = getBindingIndexForPosition g s e (c, cont) (ax, ay)"
  shows "0 \<le> slot \<and> slot \<le> int n + 1
       \<and> (slot = round ((ax - sx cont - 24) / 124) \<or> slot = 0 \<or> slot = int n + 1)
       \<and> (map_option toId belowSib = Some e \<longrightarrow> Some k = map_option index belowSib)
       \<and> (map_option toId belowSib \<noteq> Some e \<and> map_option toId aboveSib = Some e \<longrightarrow>
            Some k = map_option index aboveSib)
       \<and> (map_option toId belowSib \<noteq> Some e \<and> map_option toId aboveSib \<noteq> Some e \<longrightarrow>
            k = g (map_option index belowSib) (map_option index aboveSib)
            \<and> (\<forall>b. belowSib = Some b \<longrightarrow> index b < k)
            \<and> (\<forall>a. aboveSib = Some a \<longrightarrow> k < index a))"
proof -
  have st: "sorted_wrt (<) (map index all)" unfolding all by (rule sorted_all[OF d])
  have kk: "k = (if map_option toId belowSib = Some e then index (the belowSib)
         else if map_option toId aboveSib = Some e then index (the aboveSib)
         else g (map_option index belowSib) (map_option index aboveSib))"
    unfolding k by (rule getBindingIndexForPosition_unfold[OF all n slot belowSib aboveSib])
  have r: "0 \<le> slot \<and> slot \<le> int n + 1
       \<and> (slot = round ((ax - sx cont - 24) / 124) \<or> slot = 0 \<or> slot = int n + 1)"
    unfolding slot by (rule clamp_range) simp
  have p1: "map_option toId belowSib = Some e \<longrightarrow> Some k = map_option index belowSib"
    unfolding kk by (cases belowSib) auto
  have p2: "map_option toId belowSib \<noteq> Some e \<and> map_option toId aboveSib = Some e \<longrightarrow>
            Some k = map_option index aboveSib"
    unfolding kk by (cases aboveSib) auto
  have p3: "map_option toId belowSib \<noteq> Some e \<and> map_option toId aboveSib \<noteq> Some e \<longrightarrow>
            k = g (map_option index belowSib) (map_option index aboveSib)"
  proof (intro impI)
    assume h: "map_option toId belowSib \<noteq> Some e \<and> map_option toId aboveSib \<noteq> Some e"
    then have a: "\<not> map_option toId belowSib = Some e" and b: "\<not> map_option toId aboveSib = Some e"
      by blast+
    show "k = g (map_option index belowSib) (map_option index aboveSib)"
      by (simp only: kk if_not_P[OF a] if_not_P[OF b])
  qed
  have p4: "(\<forall>b. belowSib = Some b \<longrightarrow> index b < g (map_option index belowSib) (map_option index aboveSib))
            \<and> (\<forall>a. aboveSib = Some a \<longrightarrow> g (map_option index belowSib) (map_option index aboveSib) < index a)"
    unfolding belowSib aboveSib by (rule allocator_between[OF ok st])
  show ?thesis
    using r p1 p2 p3 p4 by blast
qed

theorem binding_index_for_position_witness:
  "allocator_ok between_rat
   \<and> distinct (map index (getBindingsFromShape settled 10))
   \<and> getBindingIndexForPosition between_rat settled 3 (10, ContainerShape 200 200 272 148) (350, 280) = 3 / 2
   \<and> index binding1 < getBindingIndexForPosition between_rat settled 3 (10, ContainerShape 200 200 272 148) (350, 280)
   \<and> getBindingIndexForPosition between_rat settled 3 (10, ContainerShape 200 200 272 148) (350, 280) < index binding2"
proof -
  have d: "distinct (map index (getBindingsFromShape settled 10))"
    by (simp add: getBindingsFromShape_def settled_def binding1_def binding2_def)
  have all: "[binding1, binding2] = sort_key index (getBindingsFromShape settled 10)"
    by (simp add: getBindingsFromShape_def settled_def binding1_def binding2_def)
  have n: "2 = length (filter (\<lambda>b. toId b \<noteq> 3) [binding1, binding2])"
    by (simp add: binding1_def binding2_def)
  have slot: "1 = clamp (round ((350 - sx (ContainerShape 200 200 272 148) - 24) / 124)) 0 (int 2 + 1)"
    by (simp add: round_def clamp_def floor_eq_iff)
  have below: "Some binding1 = nth_opt [binding1, binding2] (1 - 1)" by (simp add: nth_opt_def)
  have above: "Some binding2 = nth_opt [binding1, binding2] 1" by (simp add: nth_opt_def)
  note t = binding_index_for_position[OF allocator_ok_between_rat d all n slot below above refl,
      where ay = 280]
  have k: "getBindingIndexForPosition between_rat settled 3 (10, ContainerShape 200 200 272 148) (350, 280)
        = between_rat (Some (index binding1)) (Some (index binding2))"
    using t by (simp add: binding1_def binding2_def)
  have lo: "index binding1 < getBindingIndexForPosition between_rat settled 3 (10, ContainerShape 200 200 272 148) (350, 280)"
    using t by (simp add: binding1_def binding2_def)
  have hi: "getBindingIndexForPosition between_rat settled 3 (10, ContainerShape 200 200 272 148) (350, 280) < index binding2"
    using t by (simp add: binding1_def binding2_def)
  show ?thesis using allocator_ok_between_rat d k lo hi by (simp add: binding1_def binding2_def)
qed

section \<open>Drag resolution\<close>

text \<open>
  C4 (as amended): in every store reachable through the drag callbacks from a store with
  unique binding ids, at most one binding per (container, element) pair and at most one
  committed binding per element, each (container, element) pair has at most one layout
  binding and each element has at most one committed (non-placeholder) incoming layout
  binding.  Placeholder bindings from two containers to one element do coexist during a
  drag, as the closed example after the witness shows.
\<close>

theorem drag_relationship_uniqueness:
  assumes "reachable g s0 s" and "ids_unique s0" and "pair_unique s0" and "committed_unique s0"
  shows "pair_unique s \<and> committed_unique s"
  using reachable_pair_unique[OF assms(1,2,3)] reachable_committed_unique[OF assms(1,2,4)]
  by simp

theorem drag_relationship_uniqueness_witness:
  "pair_unique dragged_across \<and> committed_unique dragged_across"
  by (rule drag_relationship_uniqueness[OF reachable_dragged_across two_containers_wf(1,2,3)])

theorem two_containers_hold_one_element:
  "map fromId (getBindingsToShape dragged_across 1) = [10, 20]
   \<and> map placeholder (getBindingsToShape dragged_across 1) = [True, True]"
  by code_simp



text \<open>
  C6 (as amended): in every store reachable through the drag callbacks from a store
  with unique binding ids whose containers are sized, every container holding at least
  one binding has the
  width \<open>24 + n * 100 + (n - 1) * 24 + 24\<close> and the height \<open>24 + 100 + 24\<close> of its member
  count \<open>n\<close>; a reflow of a container without bindings changes nothing, so a container
  whose last member was removed keeps the size it had, as the closed example shows.
\<close>

theorem container_size_invariant:
  assumes "reachable g s0 s" and "ids_unique s0" and "all_sized s0"
  shows "all_sized s
       \<and> (\<forall>t. getBindingsFromShape s (fromId t) = [] \<longrightarrow> updateElementsForContainer t s = s)"
  using reachable_all_sized[OF assms] by (simp add: reflow_noop_empty)

theorem container_size_invariant_witness:
  "all_sized dragged_across \<and> sized dragged_across 20
   \<and> getShape dragged_across 20 = Some (ContainerShape 400 200 148 148)
   \<and> length (getBindingsFromShape dragged_across 20) = 1"
proof -
  have "all_sized dragged_across"
    using container_size_invariant[OF reachable_dragged_across two_containers_wf(1,5)] by simp
  moreover from this have "sized dragged_across 20" by (simp add: all_sized_def)
  moreover have "getShape dragged_across 20 = Some (ContainerShape 400 200 148 148)
   \<and> length (getBindingsFromShape dragged_across 20) = 1"
    by code_simp
  ultimately show ?thesis by simp
qed

theorem stale_size_after_last_member_removed:
  "getBindingsFromShape detached 10 = []
   \<and> getShape detached 10 = Some (ContainerShape 200 200 148 148)
   \<and> width (the (getShape detached 10))
       \<noteq> 24 + of_nat (length (getBindingsFromShape detached 10)) * 100
           + (of_nat (length (getBindingsFromShape detached 10)) - 1) * 24 + 24"
  by code_simp

text \<open>
  C5: in every store reachable through the drag callbacks, with an allocator that
  meets its contract, from a store with unique binding ids, at most one binding per
  (container, element) pair, sized containers and pairwise distinct keys per container,
  the keys of any container's bindings are pairwise distinct, so sorting them by index
  gives a strictly ascending list.
\<close>

theorem index_keys_never_tie:
  fixes g :: "('k::linorder) option \<Rightarrow> 'k option \<Rightarrow> 'k"
  assumes "reachable g s0 s" and "allocator_ok g" and "ids_unique s0" and "pair_unique s0"
    and "all_sized s0" and "keys_unique s0"
  shows "sorted_wrt (<) (map index (sort_key index (getBindingsFromShape s c)))
       \<and> distinct (map index (getBindingsFromShape s c))"
proof -
  have "keys_unique s" by (rule reachable_keys_unique[OF assms])
  then have d: "distinct (map index (getBindingsFromShape s c))" by (simp add: keys_unique_def)
  then show ?thesis using sorted_all[OF d] by simp
qed

theorem index_keys_never_tie_witness:
  "map index (getBindingsFromShape
      (onTranslate between_rat 3 (ElementShape 300 230 100 100 ''grey'') settled) 10) = [2, 1, 3 / 2]
   \<and> sorted_wrt (<) (map index (sort_key index (getBindingsFromShape
      (onTranslate between_rat 3 (ElementShape 300 230 100 100 ''grey'') settled) 10)))
   \<and> distinct (map index (getBindingsFromShape
      (onTranslate between_rat 3 (ElementShape 300 230 100 100 ''grey'') settled) 10))"
  using index_keys_never_tie[OF reachable_inserted allocator_ok_between_rat settled_wf, of 10]
    inserted_keys by simp

section \<open>Lifecycle hooks\<close>

text \<open>
  C9 (as amended): the binding util overrides the hooks after-create, after-change,
  after-delete and after-change-from-shape, each of which runs
  \<open>updateElementsForContainer\<close> on the binding it receives, that is, on the container the
  binding leaves from.  The from-shape of a layout binding is the container; the hook
  for changes of the to-shape, the bound element, is not overridden, so a change of a
  shape reflows once per binding that leaves it and a move of a bound element alone
  triggers no reflow, as the closed example shows: the element stays where the
  framework's move has put it.
\<close>

theorem layout_hooks:
  "(LayoutBindingUtil_hook OnAfterCreate
      :: (('k::linorder) binding \<Rightarrow> 'k editor \<Rightarrow> 'k editor) option) = Some updateElementsForContainer
   \<and> (LayoutBindingUtil_hook OnAfterChange
      :: ('k binding \<Rightarrow> 'k editor \<Rightarrow> 'k editor) option) = Some updateElementsForContainer
   \<and> (LayoutBindingUtil_hook OnAfterDelete
      :: ('k binding \<Rightarrow> 'k editor \<Rightarrow> 'k editor) option) = Some updateElementsForContainer
   \<and> (LayoutBindingUtil_hook OnAfterChangeFromShape
      :: ('k binding \<Rightarrow> 'k editor \<Rightarrow> 'k editor) option) = Some updateElementsForContainer
   \<and> (LayoutBindingUtil_hook OnAfterChangeToShape
      :: ('k binding \<Rightarrow> 'k editor \<Rightarrow> 'k editor) option) = None
   \<and> shapeChanged i (s :: 'k editor) = fold updateElementsForContainer (getBindingsFromShape s i) s"
proof -
  have "(onAfterCreate :: 'k binding \<Rightarrow> 'k editor \<Rightarrow> 'k editor) = updateElementsForContainer"
    "(onAfterChange :: 'k binding \<Rightarrow> 'k editor \<Rightarrow> 'k editor) = updateElementsForContainer"
    "(onAfterDelete :: 'k binding \<Rightarrow> 'k editor \<Rightarrow> 'k editor) = updateElementsForContainer"
    "(onAfterChangeFromShape :: 'k binding \<Rightarrow> 'k editor \<Rightarrow> 'k editor) = updateElementsForContainer"
    by (simp_all add: fun_eq_iff onAfterCreate_def onAfterChange_def onAfterDelete_def
          onAfterChangeFromShape_def)
  then show ?thesis by (simp add: shapeChanged_eq)
qed

theorem element_movement_triggers_no_reflow:
  "getBindingsToShape nudged 2 = [binding2]
   \<and> getShape nudged 2 = Some (ElementShape 1000 1000 100 100 ''orange'')
   \<and> shapeChanged 2 nudged = nudged
   \<and> getShape (updateElementsForContainer binding2 nudged) 2
       = Some (ElementShape 348 224 100 100 ''orange'')
   \<and> getShape (moveShape 2 (ElementShape 1000 1000 100 100 ''orange'') settled) 2
       = Some (ElementShape 1000 1000 100 100 ''orange'')"
  by code_simp

end
